theory Spec2Isabelle
  imports Complex_Main "HOL-Library.Product_Lexorder" "HOL-Library.Multiset"
begin

section \<open>Data model of the ingestion service\<close>

text \<open>
  The development follows the second (batch-granular) \<open>IngestionService\<close> class of
  \<open>src/services/ingestionService.js\<close> and the two routers \<open>routes/ingest\<close> and
  \<open>routes/status\<close>.

  JavaScript values as they arrive in a parsed JSON request body. A number is represented
  by its numeric value; \<open>JUndefined\<close> stands for a missing field. JSON has no
  \<open>NaN\<close>; a literal beyond the range of a double is read as \<open>Infinity\<close>, which the
  router rejects like any other number above the admitted range.
\<close>

datatype jsval =
    JUndefined
  | JNull
  | JBool bool
  | JNum rat
  | JStr string
  | JArr "jsval list"
  | JObj "(string \<times> jsval) list"

text \<open>
  \<open>uuidv4()\<close> is modelled by a supply of fresh identifiers: the state carries the next
  unused identifier, every call returns it and advances the supply.
\<close>

type_synonym uuid = nat

datatype status = yet_to_start | triggered | completed

text \<open>
  Inside the service the priority is one of the three literals. The comparator of
  \<open>sortQueue\<close> looks the priority up in \<open>priorityOrder\<close>; for any other value the lookup
  is \<open>undefined\<close> and the comparator is no longer a consistent ordering, so the service is
  modelled on the three literals only and the router converts the validated string.
\<close>

datatype priority = HIGH | MEDIUM | LOW

record batch =
  batchId :: uuid
  ids :: "jsval list"
  status :: status

record ingestion =
  i_id :: uuid
  i_priority :: priority
  batches :: "batch list"
  i_createdAt :: int
  i_status :: status

text \<open>
  A queue item. The source also stores a reference \<open>batch\<close> to the batch object in the
  item; \<open>processQueue\<close> never reads it (it looks the batch up by \<open>batchId\<close>), so the
  field is left out.
\<close>

record queue_item =
  q_ingestionId :: uuid
  q_batchId :: uuid
  q_priority :: priority
  q_createdAt :: int

definition BATCH_SIZE :: nat where
  "BATCH_SIZE = 3"

definition RATE_LIMIT_MS :: int where
  "RATE_LIMIT_MS = 5000"

text \<open>
  The state of the service object (\<open>ingestions\<close>, \<open>batchQueue\<close>, \<open>isProcessing\<close>)
  together with the part of the JavaScript runtime the service depends on:
  \<^item> \<open>uuidSupply\<close>: the next identifier \<open>uuidv4()\<close> returns;
  \<^item> \<open>now\<close>: the wall clock in milliseconds, read by \<open>new Date()\<close>;
  \<^item> \<open>immediates\<close>: the number of \<open>setImmediate\<close> callbacks (each one a call of
  \<open>startProcessing\<close>) that are scheduled and have not run yet;
  \<^item> \<open>loopWake\<close>: \<open>Some t\<close> while \<open>processQueue\<close> is suspended at its rate-limit
  \<open>await\<close>, the timer having been set for time \<open>t\<close>;
  \<^item> \<open>inflight\<close>: the batches whose \<open>processBatch\<close> promise has not resolved yet, as
  (ingestion id, batch id);
  \<^item> \<open>dispatchLog\<close>: a history variable, not part of the source: for every dispatch, in
  order, the time of the dispatch, the dispatched queue item and the queue as it was right
  after the item was removed.
  The helper \<open>processingPromise\<close> is written and never read by the operations modelled
  here and is left out.
\<close>

record state =
  ingestions :: "uuid \<rightharpoonup> ingestion"
  batchQueue :: "queue_item list"
  isProcessing :: bool
  uuidSupply :: uuid
  now :: int
  immediates :: nat
  loopWake :: "int option"
  inflight :: "(uuid \<times> uuid) list"
  dispatchLog :: "(int \<times> queue_item \<times> queue_item list) list"

definition init_state :: state where
  "init_state = \<lparr> ingestions = Map.empty, batchQueue = [], isProcessing = False,
     uuidSupply = 0, now = 0, immediates = 0, loopWake = None, inflight = [],
     dispatchLog = [] \<rparr>"

section \<open>Admission\<close>

text \<open>\<open>Array.prototype.slice(i, j)\<close> for \<open>0 \<le> i \<le> j\<close>: both ends are clamped to the length.\<close>

definition slice :: "nat \<Rightarrow> nat \<Rightarrow> 'a list \<Rightarrow> 'a list" where
  "slice i j xs = take (j - i) (drop i xs)"

text \<open>
  The \<open>for\<close> loop of \<open>createBatches\<close>: \<open>i\<close> is the loop counter, \<open>acc\<close> the array
  \<open>batches\<close> built so far, \<open>u\<close> the identifier supply.
\<close>

function createBatches_loop :: "jsval list \<Rightarrow> nat \<Rightarrow> batch list \<Rightarrow> uuid \<Rightarrow> batch list \<times> uuid" where
  "createBatches_loop js i acc u =
     (if i < length js
      then createBatches_loop js (i + BATCH_SIZE)
             (acc @ [\<lparr> batchId = u, ids = slice i (i + BATCH_SIZE) js, status = yet_to_start \<rparr>])
             (Suc u)
      else (acc, u))"
  by pat_completeness auto
termination
  by (relation "measure (\<lambda>(js, i, acc, u). length js - i)") (auto simp: BATCH_SIZE_def)

declare createBatches_loop.simps [simp del]

definition createBatches :: "jsval list \<Rightarrow> uuid \<Rightarrow> batch list \<times> uuid" where
  "createBatches js u = createBatches_loop js 0 [] u"

section \<open>The queue order\<close>

definition priorityOrder :: "priority \<Rightarrow> int" where
  "priorityOrder p = (case p of HIGH \<Rightarrow> 0 | MEDIUM \<Rightarrow> 1 | LOW \<Rightarrow> 2)"

text \<open>The comparator passed to \<open>Array.prototype.sort\<close>; dates subtract to milliseconds.\<close>

definition compareFn :: "queue_item \<Rightarrow> queue_item \<Rightarrow> int" where
  "compareFn a b =
     (if priorityOrder (q_priority a) \<noteq> priorityOrder (q_priority b)
      then priorityOrder (q_priority a) - priorityOrder (q_priority b)
      else q_createdAt a - q_createdAt b)"

text \<open>
  \<open>Array.prototype.sort\<close> is stable, and \<open>compareFn\<close> is a consistent comparator on
  the three priorities, so the result is the one stable sorted arrangement of the array. It is
  computed here by insertion from the right: an element goes in front of the first element
  it does not exceed, hence in front of the equal elements that followed it.
\<close>

fun insert_sorted :: "queue_item \<Rightarrow> queue_item list \<Rightarrow> queue_item list" where
  "insert_sorted a [] = [a]"
| "insert_sorted a (b # bs) =
     (if compareFn a b \<le> 0 then a # b # bs else b # insert_sorted a bs)"

definition sort_stable :: "queue_item list \<Rightarrow> queue_item list" where
  "sort_stable xs = foldr insert_sorted xs []"

definition sortQueue :: "state \<Rightarrow> state" where
  "sortQueue s = s\<lparr> batchQueue := sort_stable (batchQueue s) \<rparr>"

text \<open>The sort key that \<open>compareFn\<close> compares: priority rank, then enqueue time.\<close>

definition qkey :: "queue_item \<Rightarrow> int \<times> int" where
  "qkey e = (priorityOrder (q_priority e), q_createdAt e)"

text \<open>
  \<open>createIngestion(ids, priority)\<close>. The clock is read twice, for the record and for the
  queue items; \<open>d\<close> is the number of milliseconds that pass between the two readings.
  The result is the returned identifier and the new state.
\<close>

definition createIngestion :: "jsval list \<Rightarrow> priority \<Rightarrow> nat \<Rightarrow> state \<Rightarrow> uuid \<times> state" where
  "createIngestion js p d s =
     (let ingestionId = uuidSupply s;
          (bs, u) = createBatches js (Suc ingestionId);
          s1 = s\<lparr> ingestions := (ingestions s)(ingestionId \<mapsto>
                     \<lparr> i_id = ingestionId, i_priority = p, batches = bs,
                       i_createdAt = now s, i_status = yet_to_start \<rparr>),
                  uuidSupply := u \<rparr>;
          createdAt = now s1 + int d;
          s2 = s1\<lparr> now := createdAt,
                   batchQueue := batchQueue s1 @
                     map (\<lambda>b. \<lparr> q_ingestionId = ingestionId, q_batchId = batchId b,
                                q_priority = p, q_createdAt = createdAt \<rparr>) bs \<rparr>;
          s3 = sortQueue s2
      in (ingestionId, s3\<lparr> immediates := Suc (immediates s3) \<rparr>))"

section \<open>The dispatch loop\<close>

text \<open>
  Assignment to the \<open>status\<close> field of the batch object that
  \<open>batches.find(b => b.batchId === id)\<close> returns, i.e. of the first batch with that id.
\<close>

fun set_batch_status :: "uuid \<Rightarrow> status \<Rightarrow> batch list \<Rightarrow> batch list" where
  "set_batch_status bid st [] = []"
| "set_batch_status bid st (b # bs) =
     (if batchId b = bid then b\<lparr> status := st \<rparr> # bs else b # set_batch_status bid st bs)"

lemma length_insert_sorted: "length (insert_sorted a xs) = Suc (length xs)"
  by (induction xs) auto

lemma length_sort_stable: "length (sort_stable xs) = length xs"
  by (induction xs) (auto simp: sort_stable_def length_insert_sorted)

lemma sort_stable_Cons_length: "sort_stable xs = y # ys \<Longrightarrow> length ys < length xs"
  using length_sort_stable [of xs] by simp

text \<open>
  The \<open>while\<close> loop of \<open>processQueue\<close>, run from the loop test up to the point where
  the function next gives up control: either it suspends at the rate-limit \<open>await\<close>
  (\<open>loopWake\<close> is set, \<open>isProcessing\<close> stays \<open>True\<close>) or the loop ends and the
  \<open>finally\<close> block clears \<open>isProcessing\<close>. A \<open>continue\<close> is the recursive call.
  The launch of \<open>processBatch(batch).then(...)\<close> records the batch in \<open>inflight\<close>.
  \<open>shift()\<close> on an empty array yields \<open>undefined\<close> and the property access on it
  throws, which leaves through \<open>finally\<close>.
\<close>

function processQueue_loop :: "state \<Rightarrow> state" where
  "processQueue_loop s =
     (if batchQueue s = [] then s\<lparr> isProcessing := False \<rparr>
      else
        let s1 = sortQueue s in
        case batchQueue s1 of
          [] \<Rightarrow> s1\<lparr> isProcessing := False \<rparr>
        | queueItem # rest \<Rightarrow>
            let s2 = s1\<lparr> batchQueue := rest \<rparr> in
            (case ingestions s2 (q_ingestionId queueItem) of
               None \<Rightarrow> processQueue_loop s2
             | Some ingestion \<Rightarrow>
                 (case find (\<lambda>b. batchId b = q_batchId queueItem) (batches ingestion) of
                    None \<Rightarrow> processQueue_loop s2
                  | Some batch \<Rightarrow>
                      if status batch \<noteq> yet_to_start then processQueue_loop s2
                      else
                        let ingestion1 =
                              (if i_status ingestion = yet_to_start
                               then ingestion\<lparr> i_status := triggered \<rparr> else ingestion);
                            ingestion2 = ingestion1\<lparr> batches :=
                              set_batch_status (q_batchId queueItem) triggered (batches ingestion1) \<rparr>;
                            s3 = s2\<lparr> ingestions :=
                                       (ingestions s2)(q_ingestionId queueItem \<mapsto> ingestion2),
                                     inflight := inflight s2 @
                                       [(q_ingestionId queueItem, q_batchId queueItem)],
                                     dispatchLog := dispatchLog s2 @
                                       [(now s2, queueItem, batchQueue s2)] \<rparr>
                        in if batchQueue s3 \<noteq> []
                           then s3\<lparr> loopWake := Some (now s3 + RATE_LIMIT_MS) \<rparr>
                           else processQueue_loop s3)))"
  by pat_completeness auto
termination
  by (relation "measure (\<lambda>s. length (batchQueue s))")
     (auto simp: sortQueue_def dest: sort_stable_Cons_length)

declare processQueue_loop.simps [simp del]

text \<open>\<open>processQueue\<close> up to its first suspension, and \<open>startProcessing\<close>.\<close>

definition processQueue :: "state \<Rightarrow> state" where
  "processQueue s =
     (if isProcessing s then s else processQueue_loop (s\<lparr> isProcessing := True \<rparr>))"

definition startProcessing :: "state \<Rightarrow> state" where
  "startProcessing s =
     (if \<not> isProcessing s \<and> length (batchQueue s) > 0 then processQueue s else s)"

text \<open>
  The callback given to \<open>processBatch(batch).then\<close>: it runs when all per-id promises of
  the batch have resolved. The closure holds the batch and the ingestion objects; they are
  found here under their identifiers.
\<close>

definition complete_batch :: "uuid \<Rightarrow> uuid \<Rightarrow> state \<Rightarrow> state" where
  "complete_batch iid bid s =
     (case ingestions s iid of
        None \<Rightarrow> s\<lparr> inflight := remove1 (iid, bid) (inflight s) \<rparr>
      | Some ingestion \<Rightarrow>
          let bs = set_batch_status bid completed (batches ingestion);
              allCompleted = list_all (\<lambda>b. status b = completed) bs;
              ingestion1 = ingestion\<lparr> batches := bs \<rparr>;
              ingestion2 = (if allCompleted then ingestion1\<lparr> i_status := completed \<rparr>
                            else ingestion1)
          in s\<lparr> ingestions := (ingestions s)(iid \<mapsto> ingestion2),
                inflight := remove1 (iid, bid) (inflight s) \<rparr>)"

section \<open>Status query\<close>

record batch_view =
  batch_id :: uuid
  v_ids :: "jsval list"
  v_status :: status

record status_result =
  ingestion_id :: uuid
  r_status :: status
  r_batches :: "batch_view list"

text \<open>\<open>getIngestionStatus\<close>; \<open>None\<close> is the \<open>null\<close> result.\<close>

definition getIngestionStatus :: "uuid \<Rightarrow> state \<Rightarrow> status_result option" where
  "getIngestionStatus ingestionId s =
     (case ingestions s ingestionId of
        None \<Rightarrow> None
      | Some ingestion \<Rightarrow>
          let hasTriggered = list_ex (\<lambda>b. status b = triggered) (batches ingestion);
              hasCompleted = list_ex (\<lambda>b. status b = completed) (batches ingestion);
              allCompleted = list_all (\<lambda>b. status b = completed) (batches ingestion);
              st = (if allCompleted then completed
                    else if hasTriggered \<or> hasCompleted then triggered
                    else yet_to_start)
          in Some \<lparr> ingestion_id = ingestionId, r_status = st,
                    r_batches = map (\<lambda>b. \<lparr> batch_id = batchId b, v_ids = ids b,
                                            v_status = status b \<rparr>) (batches ingestion) \<rparr>)"

section \<open>The routers\<close>

datatype body = ErrorBody string | IngestionIdBody uuid | StatusBody status_result

type_synonym response = "nat \<times> body"

text \<open>\<open>['HIGH', 'MEDIUM', 'LOW'].includes(priority)\<close>, with the literal that matched.\<close>

definition priority_of :: "jsval \<Rightarrow> priority option" where
  "priority_of v =
     (if v = JStr ''HIGH'' then Some HIGH
      else if v = JStr ''MEDIUM'' then Some MEDIUM
      else if v = JStr ''LOW'' then Some LOW
      else None)"

definition Number_isInteger :: "jsval \<Rightarrow> bool" where
  "Number_isInteger v = (case v of JNum r \<Rightarrow> of_int \<lfloor>r\<rfloor> = r | _ \<Rightarrow> False)"

text \<open>
  The predicate of \<open>ids.some\<close>: \<open>!Number.isInteger(id) || id < 1 || id > 1e9 + 7\<close>. The
  comparisons are reached by numbers only.
\<close>

definition bad_id :: "jsval \<Rightarrow> bool" where
  "bad_id v =
     (\<not> Number_isInteger v \<or> (case v of JNum r \<Rightarrow> r < 1 \<or> r > 1000000007 | _ \<Rightarrow> False))"

text \<open>
  The destructuring \<open>const { ids, priority } = req.body\<close>. On \<open>undefined\<close> and
  \<open>null\<close> it throws a \<open>TypeError\<close>, which is the result \<open>None\<close>. An object is
  given by the list of its properties, the first entry for a name being the value of the
  property; a property that is not there reads as \<open>undefined\<close>. Any other value
  (an array, a string, a number, a boolean) has neither of the two properties.
\<close>

definition property :: "(string \<times> jsval) list \<Rightarrow> string \<Rightarrow> jsval" where
  "property props k = (case map_of props k of None \<Rightarrow> JUndefined | Some v \<Rightarrow> v)"

definition destructure :: "jsval \<Rightarrow> (jsval \<times> jsval) option" where
  "destructure req_body =
     (case req_body of
        JUndefined \<Rightarrow> None
      | JNull \<Rightarrow> None
      | JObj props \<Rightarrow> Some (property props ''ids'', property props ''priority'')
      | _ \<Rightarrow> Some (JUndefined, JUndefined))"

text \<open>
  \<open>router.post('/')\<close> on the request body \<open>req.body\<close>, which is \<open>undefined\<close> when
  the body parser has left it unset. The destructuring stands inside the \<open>try\<close> block, so
  its \<open>TypeError\<close> is caught and answered with 500; nothing else in the block throws.
\<close>

definition router_post :: "jsval \<Rightarrow> nat \<Rightarrow> state \<Rightarrow> response \<times> state" where
  "router_post req_body d s =
     (case destructure req_body of
        None \<Rightarrow> ((500, ErrorBody ''Internal server error''), s)
      | Some (ids_v, priority_v) \<Rightarrow>
          (case ids_v of
             JArr js \<Rightarrow>
               if length js = 0 then ((400, ErrorBody ''ids must be a non-empty array''), s)
               else (case priority_of priority_v of
                       None \<Rightarrow> ((400, ErrorBody ''priority must be HIGH, MEDIUM, or LOW''), s)
                     | Some p \<Rightarrow>
                         if list_ex bad_id js
                         then ((400, ErrorBody ''ids must be integers between 1 and 10^9+7''), s)
                         else (let (ingestionId, s1) = createIngestion js p d s
                               in ((200, IngestionIdBody ingestionId), s1)))
           | _ \<Rightarrow> ((400, ErrorBody ''ids must be a non-empty array''), s)))"

text \<open>\<open>router.get('/:ingestionId')\<close>.\<close>

definition router_get :: "uuid \<Rightarrow> state \<Rightarrow> response \<times> state" where
  "router_get ingestionId s =
     (case getIngestionStatus ingestionId s of
        None \<Rightarrow> ((404, ErrorBody ''Ingestion not found''), s)
      | Some st \<Rightarrow> ((200, StatusBody st), s))"

section \<open>The system as a transition system\<close>

text \<open>
  JavaScript runs one task at a time, so every piece of code between two suspension points
  is one atomic step. The events are: a request to either router, a direct call of
  \<open>createIngestion\<close>, the run of a scheduled \<open>setImmediate\<close> callback, the expiry of the
  rate-limit timer (which resumes \<open>processQueue\<close>), the completion of the work of a
  dispatched batch, and the passing of time. The expiry of the timer is an event of the
  runtime: on the clock that \<open>new Date()\<close> reads it may come a little before or after the
  time the timer was set for, so the step that resumes the loop asks only for a pending
  timer. An event that is not enabled yields \<open>None\<close>.
  The test helpers \<open>clear\<close>, \<open>getQueueState\<close> and \<open>waitForProcessing\<close> are not
  operations of the running system and are not events.
\<close>

datatype event =
    Post jsval nat
  | Create "jsval list" priority nat
  | Get uuid
  | RunImmediate
  | TimerFires
  | BatchDone uuid uuid
  | Tick nat

fun step :: "state \<Rightarrow> event \<Rightarrow> state option" where
  "step s (Post req_body d) = Some (snd (router_post req_body d s))"
| "step s (Create js p d) = Some (snd (createIngestion js p d s))"
| "step s (Get ingestionId) = Some (snd (router_get ingestionId s))"
| "step s RunImmediate =
     (if immediates s > 0
      then Some (startProcessing (s\<lparr> immediates := immediates s - 1 \<rparr>))
      else None)"
| "step s TimerFires =
     (case loopWake s of
        None \<Rightarrow> None
      | Some w \<Rightarrow> Some (processQueue_loop (s\<lparr> loopWake := None \<rparr>)))"
| "step s (BatchDone iid bid) =
     (if (iid, bid) \<in> set (inflight s) then Some (complete_batch iid bid s) else None)"
| "step s (Tick d) = Some (s\<lparr> now := now s + int d \<rparr>)"

fun run :: "state \<Rightarrow> event list \<Rightarrow> state option" where
  "run s [] = Some s"
| "run s (e # es) = (case step s e of None \<Rightarrow> None | Some s1 \<Rightarrow> run s1 es)"

section \<open>Auxiliary definitions for the proofs\<close>

text \<open>The \<open>k\<close>-th batch that the loop of \<open>createBatches\<close> builds when started at \<open>i\<close>.\<close>

definition nth_batch :: "jsval list \<Rightarrow> nat \<Rightarrow> uuid \<Rightarrow> nat \<Rightarrow> batch" where
  "nth_batch js i u k =
     \<lparr> batchId = u + k, ids = slice (i + 3 * k) (i + 3 * k + 3) js, status = yet_to_start \<rparr>"

text \<open>
  The status of the batch that \<open>batches.find(b => b.batchId === bid)\<close> returns in the
  ingestion \<open>iid\<close>; \<open>None\<close> when there is no such ingestion or batch.
\<close>

definition batch_status :: "state \<Rightarrow> uuid \<Rightarrow> uuid \<Rightarrow> status option" where
  "batch_status s iid bid =
     (case ingestions s iid of
        None \<Rightarrow> None
      | Some ing \<Rightarrow> map_option status (find (\<lambda>b. batchId b = bid) (batches ing)))"

text \<open>
  The status function as the specification words it: completed iff the batch list is
  non-empty and every batch is completed; else triggered iff at least one batch is triggered
  or completed; else yet-to-start.
\<close>

definition aggregate_spec :: "status list \<Rightarrow> status" where
  "aggregate_spec sts =
     (if sts \<noteq> [] \<and> list_all (\<lambda>x. x = completed) sts then completed
      else if list_ex (\<lambda>x. x = triggered \<or> x = completed) sts then triggered
      else yet_to_start)"


text \<open>The batch list of a status result.\<close>

definition batch_views :: "batch list \<Rightarrow> batch_view list" where
  "batch_views bs = map (\<lambda>b. \<lparr> batch_id = batchId b, v_ids = ids b, v_status = status b \<rparr>) bs"

text \<open>A state for examples: one ingestion of four ids admitted in the initial state.\<close>

definition example_state :: state where
  "example_state = snd (createIngestion [JNum 1, JNum 2, JNum 3, JNum 4] HIGH 0 init_state)"

text \<open>
  Invariants of the reachable states. Identifiers in use are below the supply; the queue
  holds at most one item per batch and only items of batches that are yet to start; the
  batches in flight are the triggered ones; the loop is suspended exactly while
  \<open>isProcessing\<close> is set.
\<close>

definition fresh_ok :: "state \<Rightarrow> bool" where
  "fresh_ok s \<longleftrightarrow>
     (\<forall>i ing. ingestions s i = Some ing \<longrightarrow>
        i < uuidSupply s \<and> (\<forall>b \<in> set (batches ing). batchId b < uuidSupply s))"

definition queue_ok :: "state \<Rightarrow> bool" where
  "queue_ok s \<longleftrightarrow>
     distinct (map q_batchId (batchQueue s)) \<and>
     (\<forall>e \<in> set (batchQueue s).
        q_batchId e < uuidSupply s \<and>
        batch_status s (q_ingestionId e) (q_batchId e) = Some yet_to_start)"

definition inflight_ok :: "state \<Rightarrow> bool" where
  "inflight_ok s \<longleftrightarrow>
     distinct (inflight s) \<and>
     (\<forall>(i, b) \<in> set (inflight s). batch_status s i b = Some triggered)"

definition loop_ok :: "state \<Rightarrow> bool" where
  "loop_ok s \<longleftrightarrow> (isProcessing s \<longleftrightarrow> loopWake s \<noteq> None)"

definition inv :: "state \<Rightarrow> bool" where
  "inv s \<longleftrightarrow> fresh_ok s \<and> queue_ok s \<and> inflight_ok s \<and> loop_ok s"

text \<open>The state right after the dispatch of the queue item, before the loop goes on.\<close>

definition dispatched :: "queue_item \<Rightarrow> queue_item list \<Rightarrow> ingestion \<Rightarrow> state \<Rightarrow> state" where
  "dispatched queueItem rest ingestion s =
     s\<lparr> batchQueue := rest,
        ingestions := (ingestions s)(q_ingestionId queueItem \<mapsto>
          ingestion\<lparr> i_status := (if i_status ingestion = yet_to_start then triggered
                                    else i_status ingestion),
                     batches := set_batch_status (q_batchId queueItem) triggered
                                  (batches ingestion) \<rparr>),
        inflight := inflight s @ [(q_ingestionId queueItem, q_batchId queueItem)],
        dispatchLog := dispatchLog s @ [(now s, queueItem, rest)] \<rparr>"

text \<open>The queue items that \<open>createIngestion\<close> pushes.\<close>

definition new_items :: "jsval list \<Rightarrow> priority \<Rightarrow> nat \<Rightarrow> state \<Rightarrow> queue_item list" where
  "new_items js p d s =
     map (\<lambda>b. \<lparr> q_ingestionId = uuidSupply s, q_batchId = batchId b,
                q_priority = p, q_createdAt = now s + int d \<rparr>)
         (fst (createBatches js (Suc (uuidSupply s))))"

text \<open>
  A reachable state for examples: the ingestion of \<open>example_state\<close> after the first run of
  the dispatch loop, with the first batch in flight and the loop waiting.
\<close>

definition example_events :: "event list" where
  "example_events = [Create [JNum 1, JNum 2, JNum 3, JNum 4] HIGH 0, RunImmediate]"

definition example_running :: state where
  "example_running =
     \<lparr> ingestions = [0 \<mapsto> \<lparr> i_id = 0, i_priority = HIGH,
          batches = [\<lparr> batchId = 1, ids = [JNum 1, JNum 2, JNum 3], status = triggered \<rparr>,
                     \<lparr> batchId = 2, ids = [JNum 4], status = yet_to_start \<rparr>],
          i_createdAt = 0, i_status = triggered \<rparr>],
       batchQueue = [\<lparr> q_ingestionId = 0, q_batchId = 2, q_priority = HIGH, q_createdAt = 0 \<rparr>],
       isProcessing = True, uuidSupply = 3, now = 0, immediates = 0,
       loopWake = Some 5000, inflight = [(0, 1)],
       dispatchLog = [(0, \<lparr> q_ingestionId = 0, q_batchId = 1, q_priority = HIGH, q_createdAt = 0 \<rparr>,
                       [\<lparr> q_ingestionId = 0, q_batchId = 2, q_priority = HIGH, q_createdAt = 0 \<rparr>])] \<rparr>"

text \<open>
  One move of a batch status along the chain yet-to-start, triggered, completed (or no
  move), and a batch that keeps its identifier and ids and makes such a move.
\<close>

definition status_step :: "status \<Rightarrow> status \<Rightarrow> bool" where
  "status_step st st' \<longleftrightarrow>
     st' = st \<or> (st = yet_to_start \<and> st' = triggered) \<or> (st = triggered \<and> st' = completed)"

definition batch_step :: "batch \<Rightarrow> batch \<Rightarrow> bool" where
  "batch_step b b' \<longleftrightarrow>
     batchId b' = batchId b \<and> ids b' = ids b \<and> status_step (status b) (status b')"

text \<open>
  A run for examples: a LOW ingestion of two batches is admitted and its first batch
  dispatched; while the loop waits, a HIGH ingestion is admitted; then the wait ends.
\<close>

definition preempt_events :: "event list" where
  "preempt_events =
     [Create [JNum 1, JNum 2, JNum 3, JNum 4] LOW 0, RunImmediate, Create [JNum 9] HIGH 0,
      Tick 5000]"

definition low_item1 :: queue_item where
  "low_item1 = \<lparr> q_ingestionId = 0, q_batchId = 1, q_priority = LOW, q_createdAt = 0 \<rparr>"

definition low_item2 :: queue_item where
  "low_item2 = \<lparr> q_ingestionId = 0, q_batchId = 2, q_priority = LOW, q_createdAt = 0 \<rparr>"

definition high_item :: queue_item where
  "high_item = \<lparr> q_ingestionId = 3, q_batchId = 4, q_priority = HIGH, q_createdAt = 0 \<rparr>"

definition preempt_before :: state where
  "preempt_before =
     \<lparr> ingestions =
         [0 \<mapsto> \<lparr> i_id = 0, i_priority = LOW,
                batches = [\<lparr> batchId = 1, ids = [JNum 1, JNum 2, JNum 3], status = triggered \<rparr>,
                           \<lparr> batchId = 2, ids = [JNum 4], status = yet_to_start \<rparr>],
                i_createdAt = 0, i_status = triggered \<rparr>,
          3 \<mapsto> \<lparr> i_id = 3, i_priority = HIGH,
                batches = [\<lparr> batchId = 4, ids = [JNum 9], status = yet_to_start \<rparr>],
                i_createdAt = 0, i_status = yet_to_start \<rparr>],
       batchQueue = [high_item, low_item2],
       isProcessing = True, uuidSupply = 5, now = 5000, immediates = 1,
       loopWake = Some 5000, inflight = [(0, 1)],
       dispatchLog = [(0, low_item1, [low_item2])] \<rparr>"

definition preempt_after :: state where
  "preempt_after =
     \<lparr> ingestions =
         [0 \<mapsto> \<lparr> i_id = 0, i_priority = LOW,
                batches = [\<lparr> batchId = 1, ids = [JNum 1, JNum 2, JNum 3], status = triggered \<rparr>,
                           \<lparr> batchId = 2, ids = [JNum 4], status = yet_to_start \<rparr>],
                i_createdAt = 0, i_status = triggered \<rparr>,
          3 \<mapsto> \<lparr> i_id = 3, i_priority = HIGH,
                batches = [\<lparr> batchId = 4, ids = [JNum 9], status = triggered \<rparr>],
                i_createdAt = 0, i_status = triggered \<rparr>],
       batchQueue = [low_item2],
       isProcessing = True, uuidSupply = 5, now = 5000, immediates = 1,
       loopWake = Some 10000, inflight = [(0, 1), (3, 4)],
       dispatchLog = [(0, low_item1, [low_item2]), (5000, high_item, [low_item2])] \<rparr>"

text \<open>
  The dispatch times as the specification wants them: any two consecutive dispatches are
  at least \<open>RATE_LIMIT_MS\<close> apart.
\<close>

fun dispatch_gaps_ok :: "int list \<Rightarrow> bool" where
  "dispatch_gaps_ok (a # b # l) = (a + RATE_LIMIT_MS \<le> b \<and> dispatch_gaps_ok (b # l))"
| "dispatch_gaps_ok _ = True"

text \<open>
  A run for examples: an ingestion of one batch is admitted and dispatched, which empties the
  queue; one millisecond later a second ingestion is admitted and the scheduled callback runs.
\<close>

definition drain_events :: "event list" where
  "drain_events =
     [Create [JNum 1] HIGH 0, RunImmediate, Tick 1, Create [JNum 2] HIGH 0, RunImmediate]"

section \<open>Properties of admission\<close>

lemma batch_count_step:
  "i < (n::nat) \<Longrightarrow> (n - i + 2) div 3 = Suc ((n - (i + 3) + 2) div 3)"
proof (cases "i + 3 \<le> n")
  case True
  then have "n - i + 2 = (n - (i + 3) + 2) + 3" by simp
  then show ?thesis by (simp only: div_add_self2)
next
  case False
  assume "i < n"
  with False have "n - i = 1 \<or> n - i = 2" by arith
  moreover from False have "n - (i + 3) = 0" by simp
  ultimately show ?thesis by auto
qed

lemma last_chunk_size:
  fixes n :: nat
  assumes n: "n > 0"
  shows "min 3 (n - 3 * ((n + 2) div 3 - 1)) = (if n mod 3 = 0 then 3 else n mod 3)"
proof -
  define q where "q = n div 3"
  define r where "r = n mod 3"
  have n_eq: "n = 3 * q + r" by (simp add: q_def r_def)
  have "r < 3" by (simp add: r_def)
  then consider "r = 0" | "r = 1" | "r = 2" by linarith
  then have "min 3 (n - 3 * ((n + 2) div 3 - 1)) = (if r = 0 then 3 else r)"
  proof cases
    case 1
    with n n_eq have "0 < q" by simp
    moreover have "(n + 2) div 3 = q" unfolding n_eq 1 by arith
    moreover have "n = 3 * q" using n_eq 1 by simp
    ultimately show ?thesis using 1 by simp
  next
    case 2
    have "(n + 2) div 3 = q + 1" unfolding n_eq 2 by arith
    then show ?thesis using 2 n_eq by simp
  next
    case 3
    have "(n + 2) div 3 = q + 1" unfolding n_eq 3 by arith
    then show ?thesis using 3 n_eq by simp
  qed
  then show ?thesis by (simp add: r_def)
qed

lemma createBatches_loop_concat:
  "concat (map ids (fst (createBatches_loop js i acc u))) = concat (map ids acc) @ drop i js"
proof (induction js i acc u rule: createBatches_loop.induct)
  case (1 js i acc u)
  show ?case
  proof (cases "i < length js")
    case True
    have "take BATCH_SIZE (drop i js) @ drop (i + BATCH_SIZE) js = drop i js"
      by (metis add.commute append_take_drop_id drop_drop)
    with True 1 show ?thesis
      by (subst createBatches_loop.simps) (simp add: slice_def)
  next
    case False
    then show ?thesis by (subst createBatches_loop.simps) simp
  qed
qed

lemma createBatches_loop_closed:
  "createBatches_loop js i acc u =
     (acc @ map (nth_batch js i u) [0 ..< (length js - i + 2) div 3],
      u + (length js - i + 2) div 3)"
proof (induction js i acc u rule: createBatches_loop.induct)
  case (1 js i acc u)
  show ?case
  proof (cases "i < length js")
    case True
    define m where "m = (length js - (i + 3) + 2) div 3"
    have m: "(length js - i + 2) div 3 = Suc m"
      unfolding m_def using True by (rule batch_count_step)
    have "map (nth_batch js i u) [0 ..< Suc m]
        = nth_batch js i u 0 # map (nth_batch js (i + 3) (Suc u)) [0 ..< m]"
      by (simp add: upt_conv_Cons map_Suc_upt [symmetric] nth_batch_def add_ac del: upt_Suc)
    with True 1 m show ?thesis
      by (subst createBatches_loop.simps) (simp add: BATCH_SIZE_def m_def nth_batch_def)
  next
    case False
    then show ?thesis by (subst createBatches_loop.simps) simp
  qed
qed

lemma createBatches_closed:
  "createBatches js u =
     (map (nth_batch js 0 u) [0 ..< (length js + 2) div 3], u + (length js + 2) div 3)"
  by (simp add: createBatches_def createBatches_loop_closed)

lemma createBatches_concat: "concat (map ids (fst (createBatches js u))) = js"
  by (simp add: createBatches_def createBatches_loop_concat)

lemma createIngestion_fst: "fst (createIngestion js p d s) = uuidSupply s"
  by (simp add: createIngestion_def Let_def split: prod.splits)

lemma createIngestion_ingestions:
  "ingestions (snd (createIngestion js p d s)) =
     (ingestions s)(uuidSupply s \<mapsto>
        \<lparr> i_id = uuidSupply s, i_priority = p,
          batches = fst (createBatches js (Suc (uuidSupply s))),
          i_createdAt = now s, i_status = yet_to_start \<rparr>)"
  by (simp add: createIngestion_def Let_def sortQueue_def split: prod.splits)

lemma createIngestion_batchQueue:
  "batchQueue (snd (createIngestion js p d s)) =
     sort_stable (batchQueue s @
       map (\<lambda>b. \<lparr> q_ingestionId = uuidSupply s, q_batchId = batchId b,
                  q_priority = p, q_createdAt = now s + int d \<rparr>)
           (fst (createBatches js (Suc (uuidSupply s)))))"
  by (simp add: createIngestion_def Let_def sortQueue_def split: prod.splits)

lemma createIngestion_others:
  "uuidSupply (snd (createIngestion js p d s)) = snd (createBatches js (Suc (uuidSupply s)))"
  "now (snd (createIngestion js p d s)) = now s + int d"
  "immediates (snd (createIngestion js p d s)) = Suc (immediates s)"
  "isProcessing (snd (createIngestion js p d s)) = isProcessing s"
  "loopWake (snd (createIngestion js p d s)) = loopWake s"
  "inflight (snd (createIngestion js p d s)) = inflight s"
  "dispatchLog (snd (createIngestion js p d s)) = dispatchLog s"
  by (simp_all add: createIngestion_def Let_def sortQueue_def split: prod.splits)

text \<open>
  Claim C1. For a non-empty list of ids, the ingestion that \<open>createIngestion\<close> registers
  holds \<open>\<lceil>|ids| / 3\<rceil>\<close> batches; every batch but the last has exactly 3 ids, the last one
  has \<open>|ids| mod 3\<close> ids (3 when that is 0), and the id lists of the batches, concatenated
  in batch order, are the input list.
\<close>

theorem createIngestion_partitions_ids:
  assumes "js \<noteq> []"
  shows "case createIngestion js p d s of (ingestionId, s') \<Rightarrow>
           (\<exists>ing. ingestions s' ingestionId = Some ing \<and>
              int (length (batches ing)) = \<lceil>real (length js) / 3\<rceil> \<and>
              (\<forall>k < length (batches ing) - 1. length (ids (batches ing ! k)) = 3) \<and>
              length (ids (last (batches ing))) =
                (if length js mod 3 = 0 then 3 else length js mod 3) \<and>
              concat (map ids (batches ing)) = js)"
proof -
  define n where "n = length js"
  define c where "c = (n + 2) div 3"
  define bs where "bs = fst (createBatches js (Suc (uuidSupply s)))"
  have n: "0 < n" using assms by (simp add: n_def)
  have c: "0 < c" using n by (simp add: c_def)
  have bs: "bs = map (nth_batch js 0 (Suc (uuidSupply s))) [0 ..< c]"
    by (simp add: bs_def createBatches_closed c_def n_def)
  have len: "length bs = c" by (simp add: bs)
  have ceil: "int c = \<lceil>real n / 3\<rceil>" unfolding c_def by linarith
  have nth: "length (ids (bs ! k)) = min 3 (n - 3 * k)" if "k < c" for k
    using that by (simp add: bs nth_batch_def slice_def n_def min_def)
  have full: "length (ids (bs ! k)) = 3" if "k < c - 1" for k
  proof -
    from that n have "3 * k + 3 \<le> n" unfolding c_def by arith
    with that nth [of k] show ?thesis by simp
  qed
  have "bs \<noteq> []" using len c by auto
  then have "last bs = bs ! (c - 1)" by (simp add: last_conv_nth len)
  moreover have "min 3 (n - 3 * (c - 1)) = (if n mod 3 = 0 then 3 else n mod 3)"
    unfolding c_def using n by (rule last_chunk_size)
  ultimately have lst: "length (ids (last bs)) = (if n mod 3 = 0 then 3 else n mod 3)"
    using nth [of "c - 1"] c by simp
  have cat: "concat (map ids bs) = js" by (simp add: bs_def createBatches_concat)
  obtain ingestionId s' where eq: "createIngestion js p d s = (ingestionId, s')"
    by (cases "createIngestion js p d s")
  define ing where "ing = \<lparr> i_id = uuidSupply s, i_priority = p, batches = bs,
             i_createdAt = now s, i_status = yet_to_start \<rparr>"
  have "ingestions (snd (createIngestion js p d s)) (fst (createIngestion js p d s)) = Some ing"
    by (simp add: createIngestion_fst createIngestion_ingestions bs_def ing_def)
  then have stored: "ingestions s' ingestionId = Some ing" by (simp add: eq)
  have bing: "batches ing = bs" by (simp add: ing_def)
  have "ingestions s' ingestionId = Some ing \<and>
      int (length (batches ing)) = \<lceil>real (length js) / 3\<rceil> \<and>
      (\<forall>k < length (batches ing) - 1. length (ids (batches ing ! k)) = 3) \<and>
      length (ids (last (batches ing))) =
        (if length js mod 3 = 0 then 3 else length js mod 3) \<and>
      concat (map ids (batches ing)) = js"
    unfolding bing using stored len ceil full lst cat unfolding n_def by simp
  then show ?thesis unfolding eq prod.case by (rule exI)
qed

theorem createIngestion_partitions_ids_witness:
  "[JNum 1, JNum 2, JNum 3, JNum 4] \<noteq> [] \<and>
   (case createIngestion [JNum 1, JNum 2, JNum 3, JNum 4] HIGH 0 init_state of
      (ingestionId, s') \<Rightarrow>
        (\<exists>ing. ingestions s' ingestionId = Some ing \<and>
           int (length (batches ing)) = \<lceil>real (length [JNum 1, JNum 2, JNum 3, JNum 4]) / 3\<rceil> \<and>
           (\<forall>k < length (batches ing) - 1. length (ids (batches ing ! k)) = 3) \<and>
           length (ids (last (batches ing))) =
             (if length [JNum 1, JNum 2, JNum 3, JNum 4] mod 3 = 0 then 3
              else length [JNum 1, JNum 2, JNum 3, JNum 4] mod 3) \<and>
           concat (map ids (batches ing)) = [JNum 1, JNum 2, JNum 3, JNum 4]))"
  using createIngestion_partitions_ids [of "[JNum 1, JNum 2, JNum 3, JNum 4]" HIGH 0 init_state]
  by simp

section \<open>The queue order is a stable sort by key\<close>

lemma compareFn_qkey: "compareFn a b \<le> 0 \<longleftrightarrow> qkey a \<le> qkey b"
  by (auto simp: compareFn_def qkey_def)

lemma insert_sorted_insort: "insert_sorted a xs = insort_key qkey a xs"
  by (induction xs) (simp_all add: compareFn_qkey)

lemma sort_stable_sort_key: "sort_stable xs = sort_key qkey xs"
  unfolding sort_stable_def sort_key_def
  by (induction xs) (simp_all add: insert_sorted_insort)

lemma set_sort_stable: "set (sort_stable xs) = set xs"
  by (simp add: sort_stable_sort_key)

lemma mset_sort_stable: "mset (sort_stable xs) = mset xs"
  by (simp add: sort_stable_sort_key)

lemma sorted_sort_stable: "sorted (map qkey (sort_stable xs))"
  by (simp add: sort_stable_sort_key)

lemma distinct_map_sort_stable:
  "distinct (map f (sort_stable xs)) = distinct (map f xs)"
proof -
  have "mset (map f (sort_stable xs)) = mset (map f xs)"
    by (simp add: mset_sort_stable)
  then show ?thesis by (metis mset_eq_imp_distinct_iff)
qed

lemma filter_sort_stable: "filter P (sort_stable xs) = sort_stable (filter P xs)"
  by (simp add: sort_stable_sort_key filter_sort)

lemma sort_stable_const:
  assumes "\<forall>x \<in> set xs. qkey x = k"
  shows "sort_stable xs = xs"
proof -
  have "sorted (map qkey xs)"
    using assms by (induction xs) auto
  then show ?thesis by (simp add: sort_stable_sort_key sort_key_id_if_sorted)
qed

lemma find_set_batch_status:
  "find (\<lambda>x. batchId x = b) (set_batch_status c st bs) =
     (if b = c then map_option (\<lambda>x. x\<lparr> status := st \<rparr>) (find (\<lambda>x. batchId x = b) bs)
      else find (\<lambda>x. batchId x = b) bs)"
  by (induction bs) auto

section \<open>Status query\<close>

lemma createBatches_Nil: "createBatches [] u = ([], u)"
  by (simp add: createBatches_def createBatches_loop.simps)

lemma example_ingestions:
  "ingestions example_state = [0 \<mapsto> \<lparr> i_id = 0, i_priority = HIGH,
      batches = [\<lparr> batchId = 1, ids = [JNum 1, JNum 2, JNum 3], status = yet_to_start \<rparr>,
                 \<lparr> batchId = 2, ids = [JNum 4], status = yet_to_start \<rparr>],
      i_createdAt = 0, i_status = yet_to_start \<rparr>]"
  by (simp add: example_state_def createIngestion_ingestions init_state_def createBatches_def
      createBatches_loop.simps BATCH_SIZE_def slice_def numeral_2_eq_2)

text \<open>
  Claim C2, as stated, fails on an ingestion without batches: the service reports it as
  completed, the status function of the specification gives yet-to-start.
\<close>

theorem getIngestionStatus_empty_counterexample:
  "map_option batches (ingestions (snd (createIngestion [] HIGH 0 init_state)) 0) = Some [] \<and>
   map_option r_status (getIngestionStatus 0 (snd (createIngestion [] HIGH 0 init_state)))
     = Some completed \<and>
   aggregate_spec [] = yet_to_start"
  by (simp add: createIngestion_ingestions createBatches_Nil getIngestionStatus_def
      init_state_def aggregate_spec_def)

text \<open>
  Claim C2, amended. For every registered ingestion the status that \<open>getIngestionStatus\<close>
  returns is completed iff every batch is completed (also when there is no batch), otherwise
  triggered iff some batch is triggered or completed, otherwise yet-to-start; on a non-empty
  batch list it is the value of the specification's status function. It is computed from
  the batches at the query: the stored \<open>status\<close> field of the ingestion has no influence.
\<close>

theorem getIngestionStatus_aggregates:
  assumes "ingestions s i = Some ing"
  shows "\<exists>r. getIngestionStatus i s = Some r \<and>
      (r_status r = completed \<longleftrightarrow> (\<forall>b \<in> set (batches ing). status b = completed)) \<and>
      (r_status r = triggered \<longleftrightarrow>
         \<not> (\<forall>b \<in> set (batches ing). status b = completed) \<and>
         (\<exists>b \<in> set (batches ing). status b = triggered \<or> status b = completed)) \<and>
      (r_status r = yet_to_start \<longleftrightarrow>
         \<not> (\<forall>b \<in> set (batches ing). status b = completed) \<and>
         \<not> (\<exists>b \<in> set (batches ing). status b = triggered \<or> status b = completed)) \<and>
      (batches ing \<noteq> [] \<longrightarrow> r_status r = aggregate_spec (map status (batches ing))) \<and>
      (\<forall>x. getIngestionStatus i (s\<lparr> ingestions := (ingestions s)(i \<mapsto> ing\<lparr> i_status := x \<rparr>) \<rparr>)
             = Some r)"
  using assms
  by (auto simp: getIngestionStatus_def Let_def aggregate_spec_def list_all_iff list_ex_iff)

theorem getIngestionStatus_aggregates_witness:
  "ingestions example_state 0 \<noteq> None \<and>
   map_option r_status (getIngestionStatus 0 example_state) = Some yet_to_start \<and>
   map_option r_status (getIngestionStatus 0 example_state) =
     map_option (aggregate_spec \<circ> map status \<circ> batches) (ingestions example_state 0)"
proof -
  obtain ing where ing: "ingestions example_state 0 = Some ing"
    "map status (batches ing) = [yet_to_start, yet_to_start]"
    by (simp add: example_ingestions)
  from getIngestionStatus_aggregates [OF ing(1)] obtain r where
    r: "getIngestionStatus 0 example_state = Some r"
       "r_status r = yet_to_start \<longleftrightarrow>
          \<not> (\<forall>b \<in> set (batches ing). status b = completed) \<and>
          \<not> (\<exists>b \<in> set (batches ing). status b = triggered \<or> status b = completed)"
       "batches ing \<noteq> [] \<longrightarrow> r_status r = aggregate_spec (map status (batches ing))"
    by blast
  have sts: "\<forall>b \<in> set (batches ing). status b = yet_to_start"
    using ing(2) by (metis (no_types, lifting) image_iff list.set_map set_ConsD empty_iff empty_set)
  have ne: "batches ing \<noteq> []" using ing(2) by auto
  then obtain b where "b \<in> set (batches ing)" by (cases "batches ing") auto
  with sts have "r_status r = yet_to_start" using r(2) by auto
  moreover have "r_status r = aggregate_spec (map status (batches ing))" using r(3) ne by simp
  ultimately show ?thesis using r(1) ing(1) by simp
qed

section \<open>The routers\<close>




lemma router_post_cases:
  "snd (router_post req_body d s) = s \<or>
   (\<exists>js p. snd (router_post req_body d s) = snd (createIngestion js p d s))"
proof (cases "destructure req_body")
  case None
  then show ?thesis by (simp add: router_post_def)
next
  case (Some fields)
  obtain ids_v priority_v where f: "fields = (ids_v, priority_v)" by (cases fields)
  show ?thesis
  proof (cases ids_v)
    case (JArr js)
    show ?thesis
    proof (cases "priority_of priority_v")
      case None
      with Some f JArr show ?thesis by (simp add: router_post_def)
    next
      case (Some p)
      have "snd (case createIngestion js p d s of
                   (ingestionId, s1) \<Rightarrow> ((200, IngestionIdBody ingestionId), s1))
              = snd (createIngestion js p d s)"
        by (simp split: prod.splits)
      with \<open>destructure req_body = Some fields\<close> f JArr Some show ?thesis
        by (auto simp: router_post_def)
    qed
  qed (use Some f in \<open>simp_all add: router_post_def\<close>)
qed



text \<open>
  Claim C6. For a registered id \<open>getIngestionStatus\<close> returns the record of the id, a
  status and one entry (batch id, ids, status) per batch, which the router sends with 200;
  for any other id it returns \<open>null\<close>, which the router turns into 404. The query leaves
  the state as it is.
\<close>

theorem router_get_result:
  "(ingestions s i = None \<longrightarrow>
      getIngestionStatus i s = None \<and>
      router_get i s = ((404, ErrorBody ''Ingestion not found''), s)) \<and>
   (\<forall>ing. ingestions s i = Some ing \<longrightarrow>
      (\<exists>st. getIngestionStatus i s =
               Some \<lparr> ingestion_id = i, r_status = st, r_batches = batch_views (batches ing) \<rparr> \<and>
            router_get i s =
              ((200, StatusBody \<lparr> ingestion_id = i, r_status = st,
                                   r_batches = batch_views (batches ing) \<rparr>), s))) \<and>
   step s (Get i) = Some s"
  by (cases "ingestions s i") (simp_all add: router_get_def getIngestionStatus_def Let_def batch_views_def)

theorem router_get_result_witness:
  "fst (router_get 7 example_state) = (404, ErrorBody ''Ingestion not found'') \<and>
   fst (router_get 0 example_state) =
     (200, StatusBody \<lparr> ingestion_id = 0, r_status = yet_to_start,
        r_batches = [\<lparr> batch_id = 1, v_ids = [JNum 1, JNum 2, JNum 3], v_status = yet_to_start \<rparr>,
                     \<lparr> batch_id = 2, v_ids = [JNum 4], v_status = yet_to_start \<rparr>] \<rparr>) \<and>
   step example_state (Get 7) = Some example_state"
proof -
  have "ingestions example_state 7 = None" by (simp add: example_ingestions)
  then have 1: "fst (router_get 7 example_state) = (404, ErrorBody ''Ingestion not found'')"
    using router_get_result [of example_state 7] by simp
  obtain st where st: "router_get 0 example_state =
      ((200, StatusBody \<lparr> ingestion_id = 0, r_status = st, r_batches = batch_views
        [\<lparr> batchId = 1, ids = [JNum 1, JNum 2, JNum 3], status = yet_to_start \<rparr>,
         \<lparr> batchId = 2, ids = [JNum 4], status = yet_to_start \<rparr>] \<rparr>), example_state)"
    using router_get_result [of example_state 0] by (auto simp: example_ingestions)
  moreover have "st = yet_to_start"
    using st by (simp add: router_get_def getIngestionStatus_def example_ingestions)
  ultimately have 2: "fst (router_get 0 example_state) =
     (200, StatusBody \<lparr> ingestion_id = 0, r_status = yet_to_start,
        r_batches = [\<lparr> batch_id = 1, v_ids = [JNum 1, JNum 2, JNum 3], v_status = yet_to_start \<rparr>,
                     \<lparr> batch_id = 2, v_ids = [JNum 4], v_status = yet_to_start \<rparr>] \<rparr>)"
    by (simp add: batch_views_def)
  have 3: "step example_state (Get 7) = Some example_state"
    using router_get_result [of example_state 7] by blast
  from 1 2 3 show ?thesis by blast
qed

section \<open>The dispatch loop step by step\<close>

lemma processQueue_loop_empty:
  "batchQueue s = [] \<Longrightarrow> processQueue_loop s = s\<lparr> isProcessing := False \<rparr>"
  by (subst processQueue_loop.simps) simp

lemma processQueue_loop_skip:
  assumes "sort_stable (batchQueue s) = queueItem # rest"
    and "batch_status s (q_ingestionId queueItem) (q_batchId queueItem) \<noteq> Some yet_to_start"
  shows "processQueue_loop s = processQueue_loop (s\<lparr> batchQueue := rest \<rparr>)"
proof -
  have ne: "batchQueue s \<noteq> []" using assms(1) by (auto simp: sort_stable_def)
  show ?thesis
    using assms ne
    by (subst processQueue_loop.simps)
       (auto simp: sortQueue_def batch_status_def Let_def split: option.splits)
qed

lemma processQueue_loop_dispatch:
  assumes "sort_stable (batchQueue s) = queueItem # rest"
    and "ingestions s (q_ingestionId queueItem) = Some ingestion"
    and "batch_status s (q_ingestionId queueItem) (q_batchId queueItem) = Some yet_to_start"
  shows "processQueue_loop s =
     (if rest \<noteq> []
      then (dispatched queueItem rest ingestion s)\<lparr> loopWake := Some (now s + RATE_LIMIT_MS) \<rparr>
      else (dispatched queueItem rest ingestion s)\<lparr> isProcessing := False \<rparr>)"
proof -
  have ne: "batchQueue s \<noteq> []" using assms(1) by (auto simp: sort_stable_def)
  obtain b where b: "find (\<lambda>b. batchId b = q_batchId queueItem) (batches ingestion) = Some b"
    "status b = yet_to_start"
    using assms(2,3) by (auto simp: batch_status_def)
  show ?thesis
  proof (cases "rest = []")
    case True
    have "processQueue_loop s = processQueue_loop (dispatched queueItem rest ingestion s)"
      using assms ne b True
      by (subst processQueue_loop.simps)
         (simp add: sortQueue_def Let_def dispatched_def)
    also have "\<dots> = (dispatched queueItem rest ingestion s)\<lparr> isProcessing := False \<rparr>"
      using True by (intro processQueue_loop_empty) (simp add: dispatched_def)
    finally show ?thesis using True by simp
  next
    case False
    then show ?thesis
      using assms ne b
      by (subst processQueue_loop.simps)
         (simp add: sortQueue_def Let_def dispatched_def)
  qed
qed

lemma map_batchId_set_batch_status:
  "map batchId (set_batch_status c st bs) = map batchId bs"
  by (induction bs) auto

lemma batch_status_ingestions:
  "ingestions s' = ingestions s \<Longrightarrow> batch_status s' = batch_status s"
  by (simp add: batch_status_def fun_eq_iff)

lemma batch_status_dispatched:
  assumes "ingestions s (q_ingestionId it) = Some ing"
    and "batch_status s (q_ingestionId it) (q_batchId it) = Some st"
  shows "batch_status (dispatched it rest ing s) i b =
     (if i = q_ingestionId it \<and> b = q_batchId it then Some triggered else batch_status s i b)"
  using assms
  by (auto simp: batch_status_def dispatched_def find_set_batch_status)

lemma batch_status_complete_batch:
  assumes "batch_status s i0 b0 = Some st"
  shows "batch_status (complete_batch i0 b0 s) i b =
     (if i = i0 \<and> b = b0 then Some completed else batch_status s i b)"
  using assms
  by (auto simp: batch_status_def complete_batch_def Let_def find_set_batch_status
      split: option.splits)

lemma fresh_ok_dispatched:
  assumes "fresh_ok s" "ingestions s (q_ingestionId it) = Some ing"
  shows "fresh_ok (dispatched it rest ing s)"
proof -
  have "set (set_batch_status c st bs) \<subseteq> {b. batchId b \<in> batchId ` set bs}" for c st bs
    using map_batchId_set_batch_status [of c st bs]
    by (metis (mono_tags, lifting) image_eqI list.set_map mem_Collect_eq subsetI)
  then have *: "b \<in> set (set_batch_status c st bs) \<Longrightarrow> \<exists>b' \<in> set bs. batchId b = batchId b'" for b c st bs
    by blast
  show ?thesis
    using assms unfolding fresh_ok_def dispatched_def
    by (auto dest!: * split: if_splits)
qed

lemma set_batch_status_batchId:
  "b \<in> set (set_batch_status c st bs) \<Longrightarrow> \<exists>b' \<in> set bs. batchId b = batchId b'"
  by (induction bs) (auto split: if_splits)

lemma queue_ok_dispatched:
  assumes q: "queue_ok s" and srt: "sort_stable (batchQueue s) = it # rest"
    and ing: "ingestions s (q_ingestionId it) = Some ing"
  shows "queue_ok (dispatched it rest ing s)"
proof -
  have d: "distinct (map q_batchId (it # rest))"
    using q distinct_map_sort_stable [of q_batchId "batchQueue s"]
    by (simp add: queue_ok_def srt)
  have sub: "set (it # rest) = set (batchQueue s)"
    using set_sort_stable [of "batchQueue s"] by (simp add: srt)
  have it: "batch_status s (q_ingestionId it) (q_batchId it) = Some yet_to_start"
    using q sub by (auto simp: queue_ok_def)
  have "batch_status (dispatched it rest ing s) (q_ingestionId e) (q_batchId e) = Some yet_to_start"
    if "e \<in> set rest" for e
  proof -
    from d have "q_batchId it \<notin> q_batchId ` set rest" by simp
    with that have "q_batchId e \<noteq> q_batchId it" by (metis imageI)
    moreover from that sub q
    have "batch_status s (q_ingestionId e) (q_batchId e) = Some yet_to_start"
      by (auto simp: queue_ok_def)
    ultimately show ?thesis by (simp add: batch_status_dispatched [OF ing it])
  qed
  moreover have "q_batchId e < uuidSupply s" if "e \<in> set rest" for e
    using that sub q by (auto simp: queue_ok_def)
  moreover have "batchQueue (dispatched it rest ing s) = rest"
    "uuidSupply (dispatched it rest ing s) = uuidSupply s"
    by (simp_all add: dispatched_def)
  ultimately show ?thesis using d by (simp add: queue_ok_def)
qed

lemma inflight_ok_dispatched:
  assumes f: "inflight_ok s"
    and ing: "ingestions s (q_ingestionId it) = Some ing"
    and it: "batch_status s (q_ingestionId it) (q_batchId it) = Some yet_to_start"
  shows "inflight_ok (dispatched it rest ing s)"
proof -
  have new: "(q_ingestionId it, q_batchId it) \<notin> set (inflight s)"
    using f it by (auto simp: inflight_ok_def)
  have "inflight (dispatched it rest ing s) = inflight s @ [(q_ingestionId it, q_batchId it)]"
    by (simp add: dispatched_def)
  moreover have "batch_status (dispatched it rest ing s) i b = Some triggered"
    if "(i, b) \<in> set (inflight s)" for i b
    using that f by (auto simp: batch_status_dispatched [OF ing it] inflight_ok_def)
  moreover have "batch_status (dispatched it rest ing s) (q_ingestionId it) (q_batchId it)
      = Some triggered"
    by (simp add: batch_status_dispatched [OF ing it])
  ultimately show ?thesis using f new by (auto simp: inflight_ok_def)
qed

lemma inv_fields:
  "fresh_ok (s\<lparr> loopWake := w \<rparr>) = fresh_ok s"
  "fresh_ok (s\<lparr> isProcessing := p \<rparr>) = fresh_ok s"
  "fresh_ok (s\<lparr> immediates := n \<rparr>) = fresh_ok s"
  "fresh_ok (s\<lparr> now := t \<rparr>) = fresh_ok s"
  "queue_ok (s\<lparr> loopWake := w \<rparr>) = queue_ok s"
  "queue_ok (s\<lparr> isProcessing := p \<rparr>) = queue_ok s"
  "queue_ok (s\<lparr> immediates := n \<rparr>) = queue_ok s"
  "queue_ok (s\<lparr> now := t \<rparr>) = queue_ok s"
  "inflight_ok (s\<lparr> loopWake := w \<rparr>) = inflight_ok s"
  "inflight_ok (s\<lparr> isProcessing := p \<rparr>) = inflight_ok s"
  "inflight_ok (s\<lparr> immediates := n \<rparr>) = inflight_ok s"
  "inflight_ok (s\<lparr> now := t \<rparr>) = inflight_ok s"
  by (simp_all add: fresh_ok_def queue_ok_def inflight_ok_def batch_status_def)

lemma sort_stable_nonempty:
  "xs \<noteq> [] \<Longrightarrow> \<exists>it rest. sort_stable xs = it # rest"
  using length_sort_stable [of xs] by (cases "sort_stable xs") auto

text \<open>What one run of the loop does in a state that satisfies the queue invariant.\<close>

lemma processQueue_loop_cases:
  assumes q: "queue_ok s"
  obtains (idle) "batchQueue s = []" "processQueue_loop s = s\<lparr> isProcessing := False \<rparr>"
  | (wait) it rest ing where "sort_stable (batchQueue s) = it # rest" "rest \<noteq> []"
      "ingestions s (q_ingestionId it) = Some ing"
      "batch_status s (q_ingestionId it) (q_batchId it) = Some yet_to_start"
      "processQueue_loop s =
         (dispatched it rest ing s)\<lparr> loopWake := Some (now s + RATE_LIMIT_MS) \<rparr>"
  | (last) it ing where "sort_stable (batchQueue s) = [it]"
      "ingestions s (q_ingestionId it) = Some ing"
      "batch_status s (q_ingestionId it) (q_batchId it) = Some yet_to_start"
      "processQueue_loop s = (dispatched it [] ing s)\<lparr> isProcessing := False \<rparr>"
proof (cases "batchQueue s = []")
  case True
  then show ?thesis using idle processQueue_loop_empty by blast
next
  case False
  then obtain it rest where srt: "sort_stable (batchQueue s) = it # rest"
    using sort_stable_nonempty by blast
  then have "it \<in> set (batchQueue s)"
    using set_sort_stable [of "batchQueue s"] by (metis list.set_intros(1))
  with q have st: "batch_status s (q_ingestionId it) (q_batchId it) = Some yet_to_start"
    by (simp add: queue_ok_def)
  then obtain ing where ing: "ingestions s (q_ingestionId it) = Some ing"
    by (auto simp: batch_status_def split: option.splits)
  note d = processQueue_loop_dispatch [OF srt ing st]
  show ?thesis
  proof (cases "rest = []")
    case True
    with d srt ing st show ?thesis using last by simp
  next
    case False
    with d srt ing st show ?thesis using wait by simp
  qed
qed

lemma inv_processQueue_loop:
  assumes "fresh_ok s" "queue_ok s" "inflight_ok s" "isProcessing s" "loopWake s = None"
  shows "inv (processQueue_loop s)"
  using assms(2)
proof (cases rule: processQueue_loop_cases)
  case idle
  with assms show ?thesis by (simp add: inv_def inv_fields loop_ok_def)
next
  case (wait it rest ing)
  with assms show ?thesis
    by (simp add: inv_def inv_fields loop_ok_def fresh_ok_dispatched queue_ok_dispatched
        inflight_ok_dispatched dispatched_def [where s = s, THEN arg_cong, of isProcessing])
next
  case (last it ing)
  with assms show ?thesis
    by (simp add: inv_def inv_fields loop_ok_def fresh_ok_dispatched queue_ok_dispatched
        inflight_ok_dispatched dispatched_def [where s = s, THEN arg_cong, of loopWake])
qed

section \<open>The invariants hold in every reachable state\<close>

lemma find_app:
  "find P (xs @ ys) = (case find P xs of None \<Rightarrow> find P ys | Some x \<Rightarrow> Some x)"
  by (induction xs) auto

lemma nth_batch_sel:
  "batchId (nth_batch js i u k) = u + k"
  "status (nth_batch js i u k) = yet_to_start"
  by (simp_all add: nth_batch_def)

lemma find_nth_batch:
  "k < c \<Longrightarrow> find (\<lambda>b. batchId b = u + k) (map (nth_batch js i u) [0 ..< c])
     = Some (nth_batch js i u k)"
proof (induction c)
  case 0
  then show ?case by simp
next
  case (Suc c)
  show ?case
  proof (cases "k < c")
    case True
    with Suc.IH show ?thesis by (simp add: find_app)
  next
    case False
    with Suc.prems have k: "k = c" by simp
    have "find (\<lambda>b. batchId b = u + c) (map (nth_batch js i u) [0 ..< c]) = None"
      by (auto simp: find_None_iff nth_batch_sel)
    then show ?thesis using k by (simp add: find_app nth_batch_sel)
  qed
qed

lemma batch_status_createIngestion_old:
  assumes "fresh_ok s" "batch_status s i b = Some st"
  shows "batch_status (snd (createIngestion js p d s)) i b = Some st"
proof -
  from assms(2) obtain ing where "ingestions s i = Some ing"
    by (auto simp: batch_status_def split: option.splits)
  with assms(1) have "i \<noteq> uuidSupply s" by (auto simp: fresh_ok_def)
  then show ?thesis using assms(2)
    by (simp add: batch_status_def createIngestion_ingestions)
qed

lemma batch_status_createIngestion_new:
  assumes "k < (length js + 2) div 3"
  shows "batch_status (snd (createIngestion js p d s)) (uuidSupply s) (Suc (uuidSupply s) + k)
     = Some yet_to_start"
  using find_nth_batch [OF assms, of "Suc (uuidSupply s)" js 0]
  by (simp add: batch_status_def createIngestion_ingestions createBatches_closed nth_batch_sel)

lemma fresh_ok_createIngestion:
  assumes "fresh_ok s"
  shows "fresh_ok (snd (createIngestion js p d s))"
  using assms unfolding fresh_ok_def
  by (auto simp: createIngestion_ingestions createIngestion_others createBatches_closed
      nth_batch_sel split: if_splits) force+

lemma createIngestion_batchQueue_new:
  "batchQueue (snd (createIngestion js p d s)) = sort_stable (batchQueue s @ new_items js p d s)"
  by (simp add: createIngestion_batchQueue new_items_def)

lemma new_items_batchIds:
  "map q_batchId (new_items js p d s) =
     map (\<lambda>k. Suc (uuidSupply s) + k) [0 ..< (length js + 2) div 3]"
  by (simp add: new_items_def createBatches_closed nth_batch_sel comp_def)

lemma new_items_ingestionId:
  "e \<in> set (new_items js p d s) \<Longrightarrow> q_ingestionId e = uuidSupply s"
  by (auto simp: new_items_def)

lemma new_items_batchId:
  assumes "e \<in> set (new_items js p d s)"
  shows "\<exists>k < (length js + 2) div 3. q_batchId e = Suc (uuidSupply s) + k"
proof -
  from assms have "q_batchId e \<in> set (map q_batchId (new_items js p d s))" by simp
  then show ?thesis unfolding new_items_batchIds by auto
qed

lemma queue_ok_createIngestion:
  assumes f: "fresh_ok s" and q: "queue_ok s"
  shows "queue_ok (snd (createIngestion js p d s))"
proof -
  let ?s' = "snd (createIngestion js p d s)"
  let ?new = "new_items js p d s"
  have sup: "uuidSupply ?s' = Suc (uuidSupply s) + (length js + 2) div 3"
    by (simp add: createIngestion_others createBatches_closed)
  have dn: "distinct (map q_batchId ?new)"
    unfolding new_items_batchIds by (simp add: distinct_map inj_on_def)
  have old_lt: "q_batchId e < uuidSupply s" if "e \<in> set (batchQueue s)" for e
    using that q by (simp add: queue_ok_def)
  have new_ge: "uuidSupply s < q_batchId e" if "e \<in> set ?new" for e
    using new_items_batchId [OF that] by auto
  have disj: "set (map q_batchId (batchQueue s)) \<inter> set (map q_batchId ?new) = {}"
    using old_lt new_ge by fastforce
  have d: "distinct (map q_batchId (batchQueue ?s'))"
    using q dn disj
    by (simp add: createIngestion_batchQueue_new distinct_map_sort_stable queue_ok_def)
  have "q_batchId e < uuidSupply ?s' \<and>
      batch_status ?s' (q_ingestionId e) (q_batchId e) = Some yet_to_start"
    if "e \<in> set (batchQueue ?s')" for e
  proof -
    from that consider "e \<in> set (batchQueue s)" | "e \<in> set ?new"
      by (auto simp: createIngestion_batchQueue_new set_sort_stable)
    then show ?thesis
    proof cases
      case 1
      with q have "batch_status s (q_ingestionId e) (q_batchId e) = Some yet_to_start"
        by (simp add: queue_ok_def)
      then show ?thesis
        using old_lt [OF 1] batch_status_createIngestion_old [OF f] sup by simp
    next
      case 2
      from new_items_batchId [OF 2] obtain k where
        k: "k < (length js + 2) div 3" "q_batchId e = Suc (uuidSupply s) + k" by blast
      then show ?thesis
        using batch_status_createIngestion_new [OF k(1), of p d s] new_items_ingestionId [OF 2] sup
        by simp
    qed
  qed
  with d show ?thesis by (simp add: queue_ok_def)
qed

lemma inflight_ok_createIngestion:
  assumes "fresh_ok s" "inflight_ok s"
  shows "inflight_ok (snd (createIngestion js p d s))"
  using assms batch_status_createIngestion_old [OF assms(1)]
  by (auto simp: inflight_ok_def createIngestion_others)

lemma inv_createIngestion:
  assumes "inv s"
  shows "inv (snd (createIngestion js p d s))"
  using assms
  by (simp add: inv_def fresh_ok_createIngestion queue_ok_createIngestion
      inflight_ok_createIngestion loop_ok_def createIngestion_others)

lemma inv_complete_batch:
  assumes "inv s" "(i, b) \<in> set (inflight s)"
  shows "inv (complete_batch i b s)"
proof -
  let ?s' = "complete_batch i b s"
  from assms have tr: "batch_status s i b = Some triggered"
    by (auto simp: inv_def inflight_ok_def)
  note bs = batch_status_complete_batch [OF tr]
  from tr obtain ing where ing: "ingestions s i = Some ing"
    by (auto simp: batch_status_def split: option.splits)
  have fields: "batchQueue ?s' = batchQueue s" "uuidSupply ?s' = uuidSupply s"
    "inflight ?s' = remove1 (i, b) (inflight s)" "isProcessing ?s' = isProcessing s"
    "loopWake ?s' = loopWake s"
    by (simp_all add: complete_batch_def Let_def ing)
  have "fresh_ok ?s'"
    using assms(1) ing unfolding inv_def fresh_ok_def complete_batch_def Let_def
    by (auto dest!: set_batch_status_batchId split: if_splits)
  moreover have "queue_ok ?s'"
    using assms(1) tr unfolding inv_def queue_ok_def fields
    by (auto simp: bs)
  moreover have "inflight_ok ?s'"
    using assms(1) unfolding inv_def inflight_ok_def fields
    by (auto simp: bs)
  moreover have "loop_ok ?s'"
    using assms(1) by (simp add: inv_def loop_ok_def fields)
  ultimately show ?thesis by (simp add: inv_def)
qed

lemma inv_startProcessing:
  assumes "inv s"
  shows "inv (startProcessing s)"
proof (cases "\<not> isProcessing s \<and> batchQueue s \<noteq> []")
  case True
  with assms have "inv (processQueue_loop (s\<lparr> isProcessing := True \<rparr>))"
    by (intro inv_processQueue_loop) (simp_all add: inv_def inv_fields loop_ok_def)
  with True show ?thesis by (simp add: startProcessing_def processQueue_def)
next
  case False
  with assms show ?thesis by (auto simp: startProcessing_def)
qed

lemma inv_router_post:
  assumes "inv s"
  shows "inv (snd (router_post req_body d s))"
  using router_post_cases [of req_body d s] assms inv_createIngestion [OF assms]
  by auto

lemma inv_step:
  assumes "inv s" "step s e = Some s'"
  shows "inv s'"
proof (cases e)
  case (Post req_body d)
  with assms show ?thesis using inv_router_post by auto
next
  case (Create js p d)
  with assms show ?thesis using inv_createIngestion by auto
next
  case (Get i)
  with assms show ?thesis by (auto simp: router_get_def split: option.splits)
next
  case RunImmediate
  have "inv (s\<lparr> immediates := immediates s - 1 \<rparr>)"
    using assms(1) by (simp add: inv_def inv_fields loop_ok_def)
  with assms RunImmediate show ?thesis
    using inv_startProcessing by (auto split: if_splits)
next
  case TimerFires
  with assms obtain w where w: "loopWake s = Some w"
    "s' = processQueue_loop (s\<lparr> loopWake := None \<rparr>)"
    by (auto split: option.splits)
  have "inv (processQueue_loop (s\<lparr> loopWake := None \<rparr>))"
    using assms(1) w(1) by (intro inv_processQueue_loop) (simp_all add: inv_def inv_fields loop_ok_def)
  with w show ?thesis by simp
next
  case (BatchDone i b)
  with assms show ?thesis using inv_complete_batch by (auto split: if_splits)
next
  case (Tick d)
  with assms show ?thesis by (auto simp: inv_def inv_fields loop_ok_def)
qed

lemma inv_init: "inv init_state"
  by (simp add: inv_def fresh_ok_def queue_ok_def inflight_ok_def loop_ok_def init_state_def)

lemma inv_run:
  assumes "inv s" "run s es = Some s'"
  shows "inv s'"
  using assms
proof (induction es arbitrary: s)
  case Nil
  then show ?case by simp
next
  case (Cons e es)
  then show ?case by (auto split: option.splits dest: inv_step)
qed

lemma inv_reachable: "run init_state es = Some s \<Longrightarrow> inv s"
  using inv_run [OF inv_init] .

section \<open>Queue items and batch statuses\<close>

lemma batchQueue_complete_batch: "batchQueue (complete_batch i b s) = batchQueue s"
  by (simp add: complete_batch_def Let_def split: option.splits)

text \<open>
  Claim C8. In every reachable state the queue holds at most one item per batch, and every
  item in it belongs to a batch that is still yet to start. A batch that was dispatched and
  has not completed (a batch in flight) is triggered and has no item in the queue: the item
  went at the dispatch. The completion of a batch does not touch the queue.
\<close>

theorem queue_entries_only_pending:
  assumes "run init_state es = Some s"
  shows "distinct (map q_batchId (batchQueue s)) \<and>
    (\<forall>e \<in> set (batchQueue s).
       batch_status s (q_ingestionId e) (q_batchId e) = Some yet_to_start) \<and>
    (\<forall>(i, b) \<in> set (inflight s).
       batch_status s i b = Some triggered \<and>
       (\<forall>e \<in> set (batchQueue s). \<not> (q_ingestionId e = i \<and> q_batchId e = b))) \<and>
    (\<forall>i b. batchQueue (complete_batch i b s) = batchQueue s)"
proof -
  from assms have "inv s" by (rule inv_reachable)
  then have q: "queue_ok s" and f: "inflight_ok s" by (simp_all add: inv_def)
  have "\<not> (q_ingestionId e = i \<and> q_batchId e = b)"
    if "(i, b) \<in> set (inflight s)" "e \<in> set (batchQueue s)" for i b e
  proof
    assume "q_ingestionId e = i \<and> q_batchId e = b"
    with q that(2) have "batch_status s i b = Some yet_to_start" by (auto simp: queue_ok_def)
    moreover from f that(1) have "batch_status s i b = Some triggered"
      by (auto simp: inflight_ok_def)
    ultimately show False by simp
  qed
  with q f show ?thesis
    by (auto simp: queue_ok_def inflight_ok_def batchQueue_complete_batch)
qed

lemma example_state_eq:
  "example_state =
     \<lparr> ingestions = [0 \<mapsto> \<lparr> i_id = 0, i_priority = HIGH,
          batches = [\<lparr> batchId = 1, ids = [JNum 1, JNum 2, JNum 3], status = yet_to_start \<rparr>,
                     \<lparr> batchId = 2, ids = [JNum 4], status = yet_to_start \<rparr>],
          i_createdAt = 0, i_status = yet_to_start \<rparr>],
       batchQueue = [\<lparr> q_ingestionId = 0, q_batchId = 1, q_priority = HIGH, q_createdAt = 0 \<rparr>,
                     \<lparr> q_ingestionId = 0, q_batchId = 2, q_priority = HIGH, q_createdAt = 0 \<rparr>],
       isProcessing = False, uuidSupply = 3, now = 0, immediates = 1,
       loopWake = None, inflight = [], dispatchLog = [] \<rparr>"
  by (simp add: example_state_def createIngestion_def init_state_def createBatches_def
      createBatches_loop.simps BATCH_SIZE_def slice_def sortQueue_def sort_stable_def
      compareFn_def Let_def numeral_2_eq_2 numeral_3_eq_3)

lemma example_running_run: "run init_state example_events = Some example_running"
  unfolding example_events_def
  apply (simp add: example_state_def [symmetric])
  apply (simp add: example_state_eq startProcessing_def processQueue_def)
  apply (subst processQueue_loop.simps)
  apply (simp add: sortQueue_def sort_stable_def compareFn_def Let_def RATE_LIMIT_MS_def
      example_running_def numeral_2_eq_2)
  done

theorem queue_entries_only_pending_witness:
  "run init_state example_events = Some example_running \<and>
   batchQueue example_running \<noteq> [] \<and> inflight example_running = [(0, 1)] \<and>
   distinct (map q_batchId (batchQueue example_running)) \<and>
   list_all (\<lambda>e. batch_status example_running (q_ingestionId e) (q_batchId e) = Some yet_to_start)
     (batchQueue example_running) \<and>
   batch_status example_running 0 1 = Some triggered \<and>
   list_all (\<lambda>e. \<not> (q_ingestionId e = 0 \<and> q_batchId e = 1)) (batchQueue example_running)"
proof -
  note t = queue_entries_only_pending [OF example_running_run]
  have i: "inflight example_running = [(0, 1)]" "batchQueue example_running \<noteq> []"
    by (simp_all add: example_running_def)
  from t i show ?thesis
    by (auto simp: list_all_iff example_running_run)
qed

lemma fresh_supply:
  assumes "inv s"
  shows "ingestions s (uuidSupply s) = None"
    and "e \<in> set (batchQueue s) \<Longrightarrow> q_ingestionId e \<noteq> uuidSupply s"
proof -
  from assms have f: "fresh_ok s" and q: "queue_ok s" by (simp_all add: inv_def)
  show n: "ingestions s (uuidSupply s) = None"
  proof (cases "ingestions s (uuidSupply s)")
    case (Some ing)
    with f show ?thesis by (auto simp: fresh_ok_def)
  qed simp
  assume "e \<in> set (batchQueue s)"
  with q have "batch_status s (q_ingestionId e) (q_batchId e) = Some yet_to_start"
    by (simp add: queue_ok_def)
  with n show "q_ingestionId e \<noteq> uuidSupply s"
    by (auto simp: batch_status_def)
qed

text \<open>
  Claim C10. Called with an empty list of ids in a reachable state, \<open>createIngestion\<close>
  returns an identifier that was not registered before, registers under it an ingestion
  without batches, adds nothing to the queue, and a status query on the identifier then
  reports \<open>completed\<close> with an empty batch list.
\<close>

theorem createIngestion_empty_ids:
  assumes "run init_state es = Some s"
  shows "case createIngestion [] p d s of (ingestionId, s') \<Rightarrow>
      ingestions s ingestionId = None \<and>
      ingestions s' = (ingestions s)(ingestionId \<mapsto>
        \<lparr> i_id = ingestionId, i_priority = p, batches = [],
          i_createdAt = now s, i_status = yet_to_start \<rparr>) \<and>
      batchQueue s' = sort_stable (batchQueue s) \<and>
      getIngestionStatus ingestionId s' =
        Some \<lparr> ingestion_id = ingestionId, r_status = completed, r_batches = [] \<rparr>"
proof -
  from assms have "inv s" by (rule inv_reachable)
  then have "ingestions s (uuidSupply s) = None" by (rule fresh_supply)
  moreover obtain ingestionId s' where eq: "createIngestion [] p d s = (ingestionId, s')"
    by (cases "createIngestion [] p d s")
  moreover have "fst (createIngestion [] p d s) = uuidSupply s"
    "ingestions (snd (createIngestion [] p d s)) = (ingestions s)(uuidSupply s \<mapsto>
        \<lparr> i_id = uuidSupply s, i_priority = p, batches = [],
          i_createdAt = now s, i_status = yet_to_start \<rparr>)"
    "batchQueue (snd (createIngestion [] p d s)) = sort_stable (batchQueue s)"
    by (simp_all add: createIngestion_fst createIngestion_ingestions createIngestion_batchQueue
        createBatches_Nil)
  ultimately show ?thesis
    by (simp add: getIngestionStatus_def)
qed

theorem createIngestion_empty_ids_witness:
  "run init_state example_events = Some example_running \<and>
   (case createIngestion [] LOW 0 example_running of (ingestionId, s') \<Rightarrow>
      ingestionId = 3 \<and> ingestions example_running ingestionId = None \<and>
      map_option batches (ingestions s' ingestionId) = Some [] \<and>
      getIngestionStatus ingestionId s' =
        Some \<lparr> ingestion_id = ingestionId, r_status = completed, r_batches = [] \<rparr>)"
proof -
  have "fst (createIngestion [] LOW 0 example_running) = 3"
    by (simp add: createIngestion_fst example_running_def)
  with createIngestion_empty_ids [OF example_running_run, of LOW 0] example_running_run
  show ?thesis by (auto split: prod.splits)
qed

section \<open>Admission is one step\<close>

lemma createBatches_all_pending:
  "b \<in> set (fst (createBatches js u)) \<Longrightarrow> status b = yet_to_start"
  by (auto simp: createBatches_closed nth_batch_sel)

lemma new_items_key: "e \<in> set (new_items js p d s) \<Longrightarrow> qkey e = (priorityOrder p, now s + int d)"
  by (auto simp: new_items_def qkey_def)

lemma createIngestion_queue_split:
  assumes "inv s"
  shows "filter (\<lambda>e. q_ingestionId e = uuidSupply s) (batchQueue (snd (createIngestion js p d s)))
           = new_items js p d s"
    and "filter (\<lambda>e. q_ingestionId e \<noteq> uuidSupply s) (batchQueue (snd (createIngestion js p d s)))
           = sort_stable (batchQueue s)"
proof -
  have old: "filter (\<lambda>e. q_ingestionId e = uuidSupply s) (batchQueue s) = []"
    "filter (\<lambda>e. q_ingestionId e \<noteq> uuidSupply s) (batchQueue s) = batchQueue s"
    using fresh_supply(2) [OF assms] by (auto simp: filter_empty_conv filter_id_conv)
  have new: "filter (\<lambda>e. q_ingestionId e = uuidSupply s) (new_items js p d s) = new_items js p d s"
    "filter (\<lambda>e. q_ingestionId e \<noteq> uuidSupply s) (new_items js p d s) = []"
    using new_items_ingestionId [of _ js p d s] by (auto simp: filter_empty_conv filter_id_conv)
  have "sort_stable (new_items js p d s) = new_items js p d s"
    by (rule sort_stable_const [where k = "(priorityOrder p, now s + int d)"])
       (simp add: new_items_key)
  then show "filter (\<lambda>e. q_ingestionId e = uuidSupply s)
      (batchQueue (snd (createIngestion js p d s))) = new_items js p d s"
    by (simp add: createIngestion_batchQueue_new filter_sort_stable old new)
  show "filter (\<lambda>e. q_ingestionId e \<noteq> uuidSupply s)
      (batchQueue (snd (createIngestion js p d s))) = sort_stable (batchQueue s)"
    by (simp add: createIngestion_batchQueue_new filter_sort_stable old new)
qed

text \<open>
  Claim C4, as stated, fails when the clock advances between the two readings of
  \<open>createIngestion\<close>: the queue item carries the later time, the record the earlier one.
\<close>

theorem createIngestion_timestamp_counterexample:
  "map q_createdAt (batchQueue (snd (createIngestion [JNum 1] HIGH 1 init_state))) = [1] \<and>
   map_option i_createdAt (ingestions (snd (createIngestion [JNum 1] HIGH 1 init_state)) 0)
     = Some 0"
  by (simp add: createIngestion_ingestions createIngestion_batchQueue init_state_def
      createBatches_def createBatches_loop.simps BATCH_SIZE_def sort_stable_def)

text \<open>
  Claim C4, amended. In a reachable state \<open>createIngestion\<close> is one step that registers
  the ingestion under an identifier not in use, with all of its batches, every batch and the
  ingestion yet to start, and leaves in the queue exactly one item per batch of the
  ingestion, in batch order; all these items carry one and the same time, the second clock
  reading \<open>now s + d\<close>, which is not earlier than the \<open>createdAt\<close> of the record (the
  first reading \<open>now s\<close>). The items of the other ingestions are the sorted old queue.
\<close>

theorem createIngestion_atomic:
  assumes "run init_state es = Some s"
  shows "case createIngestion js p d s of (ingestionId, s') \<Rightarrow>
      ingestions s ingestionId = None \<and>
      (\<exists>ing. ingestions s' = (ingestions s)(ingestionId \<mapsto> ing) \<and>
         i_status ing = yet_to_start \<and> i_priority ing = p \<and> i_createdAt ing = now s \<and>
         (\<forall>b \<in> set (batches ing). status b = yet_to_start) \<and>
         concat (map ids (batches ing)) = js \<and>
         filter (\<lambda>e. q_ingestionId e = ingestionId) (batchQueue s') =
           map (\<lambda>b. \<lparr> q_ingestionId = ingestionId, q_batchId = batchId b,
                      q_priority = p, q_createdAt = now s + int d \<rparr>) (batches ing) \<and>
         filter (\<lambda>e. q_ingestionId e \<noteq> ingestionId) (batchQueue s') =
           sort_stable (batchQueue s))"
proof -
  from assms have i: "inv s" by (rule inv_reachable)
  define ing where "ing = \<lparr> i_id = uuidSupply s, i_priority = p,
      batches = fst (createBatches js (Suc (uuidSupply s))),
      i_createdAt = now s, i_status = yet_to_start \<rparr>"
  obtain ingestionId s' where eq: "createIngestion js p d s = (ingestionId, s')"
    by (cases "createIngestion js p d s")
  then have id: "ingestionId = uuidSupply s" and s': "s' = snd (createIngestion js p d s)"
    using createIngestion_fst [of js p d s] by simp_all
  have "ingestions s' = (ingestions s)(ingestionId \<mapsto> ing) \<and>
         i_status ing = yet_to_start \<and> i_priority ing = p \<and> i_createdAt ing = now s \<and>
         (\<forall>b \<in> set (batches ing). status b = yet_to_start) \<and>
         concat (map ids (batches ing)) = js \<and>
         filter (\<lambda>e. q_ingestionId e = ingestionId) (batchQueue s') =
           map (\<lambda>b. \<lparr> q_ingestionId = ingestionId, q_batchId = batchId b,
                      q_priority = p, q_createdAt = now s + int d \<rparr>) (batches ing) \<and>
         filter (\<lambda>e. q_ingestionId e \<noteq> ingestionId) (batchQueue s') =
           sort_stable (batchQueue s)"
    unfolding id s' createIngestion_queue_split [OF i]
    by (simp add: ing_def createIngestion_ingestions createBatches_all_pending
        createBatches_concat new_items_def)
  then have "\<exists>ing. ingestions s' = (ingestions s)(ingestionId \<mapsto> ing) \<and>
         i_status ing = yet_to_start \<and> i_priority ing = p \<and> i_createdAt ing = now s \<and>
         (\<forall>b \<in> set (batches ing). status b = yet_to_start) \<and>
         concat (map ids (batches ing)) = js \<and>
         filter (\<lambda>e. q_ingestionId e = ingestionId) (batchQueue s') =
           map (\<lambda>b. \<lparr> q_ingestionId = ingestionId, q_batchId = batchId b,
                      q_priority = p, q_createdAt = now s + int d \<rparr>) (batches ing) \<and>
         filter (\<lambda>e. q_ingestionId e \<noteq> ingestionId) (batchQueue s') =
           sort_stable (batchQueue s)"
    by (rule exI)
  moreover have "ingestions s ingestionId = None"
    unfolding id using i by (rule fresh_supply)
  ultimately show ?thesis unfolding eq prod.case by (rule conjI [rotated])
qed

theorem createIngestion_atomic_witness:
  "run init_state example_events = Some example_running \<and>
   (case createIngestion [JNum 5, JNum 6, JNum 7, JNum 8] LOW 2 example_running of
      (ingestionId, s') \<Rightarrow>
        ingestionId = 3 \<and> ingestions example_running ingestionId = None \<and>
        map_option (map status \<circ> batches) (ingestions s' ingestionId)
          = Some [yet_to_start, yet_to_start] \<and>
        filter (\<lambda>e. q_ingestionId e = ingestionId) (batchQueue s') =
          [\<lparr> q_ingestionId = 3, q_batchId = 4, q_priority = LOW, q_createdAt = 2 \<rparr>,
           \<lparr> q_ingestionId = 3, q_batchId = 5, q_priority = LOW, q_createdAt = 2 \<rparr>])"
proof -
  have b: "fst (createBatches [JNum 5, JNum 6, JNum 7, JNum 8] 4) =
      [\<lparr> batchId = 4, ids = [JNum 5, JNum 6, JNum 7], status = yet_to_start \<rparr>,
       \<lparr> batchId = 5, ids = [JNum 8], status = yet_to_start \<rparr>]"
    by (simp add: createBatches_def createBatches_loop.simps BATCH_SIZE_def slice_def)
  have u: "uuidSupply example_running = 3" "now example_running = 0"
    by (simp_all add: example_running_def)
  obtain ingestionId s' where
    eq: "createIngestion [JNum 5, JNum 6, JNum 7, JNum 8] LOW 2 example_running = (ingestionId, s')"
    by (cases "createIngestion [JNum 5, JNum 6, JNum 7, JNum 8] LOW 2 example_running")
  then have id: "ingestionId = 3" and s': "s' = snd (createIngestion [JNum 5, JNum 6, JNum 7, JNum 8] LOW 2 example_running)"
    using createIngestion_fst [of "[JNum 5, JNum 6, JNum 7, JNum 8]" LOW 2 example_running] u
    by simp_all
  have bs: "map_option batches (ingestions s' 3) = Some
      [\<lparr> batchId = 4, ids = [JNum 5, JNum 6, JNum 7], status = yet_to_start \<rparr>,
       \<lparr> batchId = 5, ids = [JNum 8], status = yet_to_start \<rparr>]"
    by (simp add: s' createIngestion_ingestions u b)
  from createIngestion_atomic [OF example_running_run,
      where js = "[JNum 5, JNum 6, JNum 7, JNum 8]" and p = LOW and d = 2]
  show ?thesis
    unfolding eq prod.case using bs id u example_running_run by auto
qed

section \<open>Batch statuses only move forward\<close>

lemma batch_step_refl: "list_all2 batch_step bs bs"
  by (simp add: list_all2_refl batch_step_def status_step_def)

lemma set_batch_status_step:
  assumes "find (\<lambda>x. batchId x = c) bs = Some b" "status_step (status b) st"
  shows "list_all2 batch_step bs (set_batch_status c st bs)"
  using assms
proof (induction bs)
  case Nil
  then show ?case by simp
next
  case (Cons a bs)
  show ?case
  proof (cases "batchId a = c")
    case True
    with Cons.prems have "batch_step a (a\<lparr> status := st \<rparr>)"
      by (simp add: batch_step_def)
    with True show ?thesis by (simp add: batch_step_refl)
  next
    case False
    have "batch_step a a" by (simp add: batch_step_def status_step_def)
    with False Cons show ?thesis by simp
  qed
qed

lemma batch_status_find:
  assumes "batch_status s i c = Some st" "ingestions s i = Some ing"
  obtains b where "find (\<lambda>x. batchId x = c) (batches ing) = Some b" "status b = st"
  using assms by (auto simp: batch_status_def)

lemma dispatched_step:
  assumes "ingestions s (q_ingestionId it) = Some ing0"
    and "batch_status s (q_ingestionId it) (q_batchId it) = Some yet_to_start"
    and "ingestions s i = Some ing"
  shows "\<exists>ing'. ingestions (dispatched it rest ing0 s) i = Some ing' \<and>
           list_all2 batch_step (batches ing) (batches ing')"
proof (cases "i = q_ingestionId it")
  case True
  with assms have eq: "ing0 = ing" by simp
  from assms(2,1) obtain b where
    "find (\<lambda>x. batchId x = q_batchId it) (batches ing0) = Some b" "status b = yet_to_start"
    by (rule batch_status_find)
  then have "list_all2 batch_step (batches ing0)
      (set_batch_status (q_batchId it) triggered (batches ing0))"
    by (intro set_batch_status_step) (auto simp: status_step_def)
  with True eq show ?thesis by (simp add: dispatched_def)
next
  case False
  with assms(3) show ?thesis by (simp add: dispatched_def batch_step_refl)
qed

lemma processQueue_loop_step:
  assumes "queue_ok s" "ingestions s i = Some ing"
  shows "\<exists>ing'. ingestions (processQueue_loop s) i = Some ing' \<and>
           list_all2 batch_step (batches ing) (batches ing')"
  using assms(1)
proof (cases rule: processQueue_loop_cases)
  case idle
  with assms(2) show ?thesis by (simp add: batch_step_refl)
next
  case (wait it rest ing0)
  with dispatched_step [OF wait(3,4) assms(2), of rest] show ?thesis by simp
next
  case (last it ing0)
  with dispatched_step [OF last(2,3) assms(2), of "[]"] show ?thesis by simp
qed

lemma complete_batch_step:
  assumes "batch_status s i0 b0 = Some triggered" "ingestions s i = Some ing"
  shows "\<exists>ing'. ingestions (complete_batch i0 b0 s) i = Some ing' \<and>
           list_all2 batch_step (batches ing) (batches ing')"
proof (cases "i = i0")
  case True
  from assms True obtain b where
    "find (\<lambda>x. batchId x = b0) (batches ing) = Some b" "status b = triggered"
    by (auto elim: batch_status_find)
  then have "list_all2 batch_step (batches ing) (set_batch_status b0 completed (batches ing))"
    by (intro set_batch_status_step) (auto simp: status_step_def)
  with True assms(2) show ?thesis by (simp add: complete_batch_def Let_def)
next
  case False
  with assms(2) show ?thesis
    by (simp add: complete_batch_def Let_def batch_step_refl split: option.splits)
qed

lemma createIngestion_step:
  assumes "inv s" "ingestions s i = Some ing"
  shows "ingestions (snd (createIngestion js p d s)) i = Some ing"
proof -
  from fresh_supply(1) [OF assms(1)] assms(2) have "i \<noteq> uuidSupply s" by auto
  with assms(2) show ?thesis by (simp add: createIngestion_ingestions)
qed

text \<open>
  Claim C7. Every step of the system, taken in a reachable state, keeps every ingestion
  and every batch of it in place, with its identifier and ids, and the status of each batch
  either stays or moves one place forward along yet-to-start, triggered, completed.
\<close>

theorem batch_status_monotonic:
  assumes "run init_state es = Some s" and "step s e = Some s'"
    and "ingestions s i = Some ing"
  shows "\<exists>ing'. ingestions s' i = Some ing' \<and>
           list_all2 batch_step (batches ing) (batches ing')"
proof -
  from assms(1) have i: "inv s" by (rule inv_reachable)
  then have q: "queue_ok s" by (simp add: inv_def)
  note same = batch_step_refl [of "batches ing"]
  show ?thesis
  proof (cases e)
    case (Post req_body d)
    then have "s' = s \<or> (\<exists>js p. s' = snd (createIngestion js p d s))"
      using assms(2) router_post_cases [of req_body d s] by auto
    with assms(3) same createIngestion_step [OF i assms(3)] show ?thesis by auto
  next
    case (Create js p d)
    with assms(2,3) same createIngestion_step [OF i assms(3)] show ?thesis by auto
  next
    case (Get ingestionId)
    with assms(2,3) same show ?thesis by (auto simp: router_get_def split: option.splits)
  next
    case RunImmediate
    define s0 where "s0 = s\<lparr> immediates := immediates s - 1 \<rparr>"
    have s0: "ingestions s0 i = Some ing" "queue_ok (s0\<lparr> isProcessing := True \<rparr>)"
      "ingestions (s0\<lparr> isProcessing := True \<rparr>) i = Some ing"
      using assms(3) q by (simp_all add: s0_def inv_fields)
    from RunImmediate assms(2) have "s' = startProcessing s0"
      by (auto simp: s0_def split: if_splits)
    then have "s' = s0 \<or> s' = processQueue_loop (s0\<lparr> isProcessing := True \<rparr>)"
      by (auto simp: startProcessing_def processQueue_def)
    with s0(1) same processQueue_loop_step [OF s0(2,3)] show ?thesis by auto
  next
    case TimerFires
    with assms(2) have s': "s' = processQueue_loop (s\<lparr> loopWake := None \<rparr>)"
      by (auto split: option.splits if_splits)
    have "queue_ok (s\<lparr> loopWake := None \<rparr>)" "ingestions (s\<lparr> loopWake := None \<rparr>) i = Some ing"
      using q assms(3) by (simp_all add: inv_fields)
    from processQueue_loop_step [OF this] s' show ?thesis by simp
  next
    case (BatchDone i0 b0)
    with assms(2) have "(i0, b0) \<in> set (inflight s)" "s' = complete_batch i0 b0 s"
      by (auto split: if_splits)
    moreover from this(1) i have "batch_status s i0 b0 = Some triggered"
      by (auto simp: inv_def inflight_ok_def)
    ultimately show ?thesis using complete_batch_step [OF _ assms(3)] by simp
  next
    case (Tick d)
    with assms(2,3) same show ?thesis by auto
  qed
qed

lemma example_first_step:
  "run init_state [Create [JNum 1, JNum 2, JNum 3, JNum 4] HIGH 0] = Some example_state"
  "step example_state RunImmediate = Some example_running"
  using example_running_run
  by (simp_all add: example_events_def example_state_def createIngestion_others)

theorem batch_status_monotonic_witness:
  "run init_state [Create [JNum 1, JNum 2, JNum 3, JNum 4] HIGH 0] = Some example_state \<and>
   step example_state RunImmediate = Some example_running \<and>
   (\<exists>ing ing'. ingestions example_state 0 = Some ing \<and>
      ingestions example_running 0 = Some ing' \<and>
      list_all2 batch_step (batches ing) (batches ing') \<and>
      map status (batches ing) = [yet_to_start, yet_to_start] \<and>
      map status (batches ing') = [triggered, yet_to_start])"
proof -
  obtain ing where ing: "ingestions example_state 0 = Some ing"
    "map status (batches ing) = [yet_to_start, yet_to_start]"
    by (simp add: example_ingestions)
  from batch_status_monotonic [OF example_first_step ing(1)] obtain ing' where
    ing': "ingestions example_running 0 = Some ing'"
    "list_all2 batch_step (batches ing) (batches ing')" by blast
  from ing'(1) have "map status (batches ing') = [triggered, yet_to_start]"
    by (auto simp: example_running_def)
  with ing ing' have "\<exists>ing ing'. ingestions example_state 0 = Some ing \<and>
      ingestions example_running 0 = Some ing' \<and>
      list_all2 batch_step (batches ing) (batches ing') \<and>
      map status (batches ing) = [yet_to_start, yet_to_start] \<and>
      map status (batches ing') = [triggered, yet_to_start]"
    by (intro exI [of _ ing] exI [of _ ing']) simp
  with example_first_step show ?thesis by simp
qed

lemmas processQueue_loop_eval =
  processQueue_loop.simps [of "\<lparr> ingestions = m, batchQueue = q, isProcessing = p,
    uuidSupply = u, now = t, immediates = n, loopWake = w, inflight = f, dispatchLog = l \<rparr>"
    for m q p u t n w f l]

lemma small_numerals:
  "(4::nat) = Suc (Suc (Suc (Suc 0)))" "(5::nat) = Suc (Suc (Suc (Suc (Suc 0))))"
  by simp_all

lemmas eval_simps =
  createIngestion_def init_state_def createBatches_def createBatches_loop.simps BATCH_SIZE_def
  slice_def sortQueue_def sort_stable_def compareFn_def priorityOrder_def Let_def
  startProcessing_def processQueue_def RATE_LIMIT_MS_def processQueue_loop_eval
  numeral_2_eq_2 numeral_3_eq_3 small_numerals

lemma preempt_before_run: "run init_state preempt_events = Some preempt_before"
  unfolding preempt_events_def
  by (simp add: eval_simps preempt_before_def high_item_def low_item1_def low_item2_def
      fun_upd_twist)

lemma preempt_after_step: "step preempt_before TimerFires = Some preempt_after"
  by (simp add: eval_simps preempt_before_def high_item_def low_item1_def low_item2_def
      preempt_after_def)

section \<open>The dispatch order\<close>

lemma qkey_sorted_iff:
  "qkey a \<le> qkey b \<longleftrightarrow>
     priorityOrder (q_priority a) < priorityOrder (q_priority b) \<or>
     (priorityOrder (q_priority a) = priorityOrder (q_priority b) \<and>
      q_createdAt a \<le> q_createdAt b)"
  by (auto simp: qkey_def)

lemma dispatchLog_dispatched:
  "dispatchLog (dispatched it rest ing s) = dispatchLog s @ [(now s, it, rest)]"
  "batchQueue (dispatched it rest ing s) = rest"
  "now (dispatched it rest ing s) = now s"
  "isProcessing (dispatched it rest ing s) = isProcessing s"
  "loopWake (dispatched it rest ing s) = loopWake s"
  by (simp_all add: dispatched_def)

text \<open>
  What the loop has done when it returns control with a longer log: it took the head of the
  sorted queue.
\<close>

lemma processQueue_loop_head:
  assumes "queue_ok s" "dispatchLog (processQueue_loop s) \<noteq> dispatchLog s"
  shows "\<exists>it. sort_stable (batchQueue s) = it # batchQueue (processQueue_loop s) \<and>
     dispatchLog (processQueue_loop s) =
       dispatchLog s @ [(now s, it, batchQueue (processQueue_loop s))] \<and>
     batch_status s (q_ingestionId it) (q_batchId it) = Some yet_to_start \<and>
     batch_status (processQueue_loop s) (q_ingestionId it) (q_batchId it) = Some triggered"
  using assms(1)
proof (cases rule: processQueue_loop_cases)
  case idle
  with assms(2) show ?thesis by simp
next
  case (wait it rest ing)
  have "batch_status (processQueue_loop s) = batch_status (dispatched it rest ing s)"
    by (rule batch_status_ingestions) (simp add: wait(5))
  with wait show ?thesis
    by (simp add: dispatchLog_dispatched batch_status_dispatched [OF wait(3,4)])
next
  case (last it ing)
  have "batch_status (processQueue_loop s) = batch_status (dispatched it [] ing s)"
    by (rule batch_status_ingestions) (simp add: last(4))
  with last show ?thesis
    by (simp add: dispatchLog_dispatched batch_status_dispatched [OF last(2,3)])
qed

lemma dispatchLog_complete_batch: "dispatchLog (complete_batch i b s) = dispatchLog s"
  by (simp add: complete_batch_def Let_def split: option.splits)

lemma dispatchLog_router_post:
  "dispatchLog (snd (router_post req_body d s)) = dispatchLog s"
  using router_post_cases [of req_body d s] by (auto simp: createIngestion_others)

text \<open>The loop state from which a step runs the dispatch loop, if it does.\<close>

lemma step_runs_loop:
  assumes "step s e = Some s'" "dispatchLog s' \<noteq> dispatchLog s" "loop_ok s"
  obtains s0 where "s' = processQueue_loop s0" "ingestions s0 = ingestions s"
    "batchQueue s0 = batchQueue s" "now s0 = now s" "dispatchLog s0 = dispatchLog s"
    "uuidSupply s0 = uuidSupply s" "inflight s0 = inflight s" "loopWake s0 = None"
    "isProcessing s0"
proof (cases e)
  case (Post req_body d)
  with assms show ?thesis using dispatchLog_router_post [of req_body d s] by auto
next
  case (Create js p d)
  with assms show ?thesis by (auto simp: createIngestion_others)
next
  case (Get i)
  with assms show ?thesis by (auto simp: router_get_def split: option.splits)
next
  case RunImmediate
  define s0 where "s0 = s\<lparr> immediates := immediates s - 1 \<rparr>"
  from RunImmediate assms(1) have s': "s' = startProcessing s0"
    by (auto simp: s0_def split: if_splits)
  with assms(2) have "\<not> isProcessing s0" "s' = processQueue_loop (s0\<lparr> isProcessing := True \<rparr>)"
    by (auto simp: startProcessing_def processQueue_def s0_def split: if_splits)
  moreover from this(1) assms(3) have "loopWake s = None"
    by (simp add: loop_ok_def s0_def)
  ultimately show ?thesis
    using that [of "s0\<lparr> isProcessing := True \<rparr>"] by (simp add: s0_def)
next
  case TimerFires
  with assms have "s' = processQueue_loop (s\<lparr> loopWake := None \<rparr>)" "isProcessing s"
    by (auto simp: loop_ok_def split: option.splits if_splits)
  then show ?thesis using that [of "s\<lparr> loopWake := None \<rparr>"] by simp
next
  case (BatchDone i b)
  with assms show ?thesis by (auto simp: dispatchLog_complete_batch split: if_splits)
next
  case (Tick d)
  with assms show ?thesis by auto
qed

text \<open>
  Claim C3. Whenever a step in a reachable state dispatches a batch, the dispatched item is
  the head of the freshly sorted queue of that very state (all items pending at that
  moment, whenever they were enqueued), the rest of the sorted queue stays behind, and the
  batch goes from yet-to-start to triggered. The order is by priority rank, HIGH before
  MEDIUM before LOW, then by enqueue time; so no item that stays behind has a strictly
  higher priority than the dispatched one, and none of equal priority is older.
\<close>

theorem dispatch_takes_highest_priority:
  assumes "run init_state es = Some s" and "step s e = Some s'"
    and "dispatchLog s' \<noteq> dispatchLog s"
  shows "\<exists>it. sort_stable (batchQueue s) = it # batchQueue s' \<and>
     dispatchLog s' = dispatchLog s @ [(now s, it, batchQueue s')] \<and>
     batch_status s (q_ingestionId it) (q_batchId it) = Some yet_to_start \<and>
     batch_status s' (q_ingestionId it) (q_batchId it) = Some triggered \<and>
     sorted_wrt (\<lambda>a b. priorityOrder (q_priority a) < priorityOrder (q_priority b) \<or>
                  (priorityOrder (q_priority a) = priorityOrder (q_priority b) \<and>
                   q_createdAt a \<le> q_createdAt b)) (it # batchQueue s') \<and>
     (\<forall>e \<in> set (batchQueue s').
        \<not> priorityOrder (q_priority e) < priorityOrder (q_priority it)) \<and>
     priorityOrder HIGH < priorityOrder MEDIUM \<and> priorityOrder MEDIUM < priorityOrder LOW"
proof -
  from assms(1) have i: "inv s" by (rule inv_reachable)
  then have l: "loop_ok s" and q: "queue_ok s" by (simp_all add: inv_def)
  from assms(2,3) l obtain s0 where s0: "s' = processQueue_loop s0"
    "ingestions s0 = ingestions s" "batchQueue s0 = batchQueue s" "now s0 = now s"
    "dispatchLog s0 = dispatchLog s" "uuidSupply s0 = uuidSupply s"
    by (rule step_runs_loop)
  have bs: "batch_status s0 = batch_status s"
    using s0(2) by (rule batch_status_ingestions)
  have q0: "queue_ok s0" using q by (simp add: queue_ok_def s0 bs)
  from processQueue_loop_head [OF q0] assms(3) obtain it where
    it: "sort_stable (batchQueue s) = it # batchQueue s'"
    "dispatchLog s' = dispatchLog s @ [(now s, it, batchQueue s')]"
    "batch_status s (q_ingestionId it) (q_batchId it) = Some yet_to_start"
    "batch_status s' (q_ingestionId it) (q_batchId it) = Some triggered"
    by (auto simp: s0 bs)
  have srt: "sorted (map qkey (it # batchQueue s'))"
    using sorted_sort_stable [of "batchQueue s"] by (simp add: it(1))
  then have "sorted_wrt (\<lambda>a b. qkey a \<le> qkey b) (it # batchQueue s')"
    by (simp only: sorted_map)
  then have 1: "sorted_wrt (\<lambda>a b. priorityOrder (q_priority a) < priorityOrder (q_priority b) \<or>
                  (priorityOrder (q_priority a) = priorityOrder (q_priority b) \<and>
                   q_createdAt a \<le> q_createdAt b)) (it # batchQueue s')"
    by (simp only: qkey_sorted_iff)
  then have 2: "\<forall>e \<in> set (batchQueue s').
        \<not> priorityOrder (q_priority e) < priorityOrder (q_priority it)"
    by auto
  have 3: "priorityOrder HIGH < priorityOrder MEDIUM \<and> priorityOrder MEDIUM < priorityOrder LOW"
    by (simp add: priorityOrder_def)
  from it 1 2 3 show ?thesis by blast
qed

theorem dispatch_takes_highest_priority_witness:
  "run init_state preempt_events = Some preempt_before \<and>
   step preempt_before TimerFires = Some preempt_after \<and>
   dispatchLog preempt_after \<noteq> dispatchLog preempt_before \<and>
   batchQueue preempt_before = [high_item, low_item2] \<and>
   dispatchLog preempt_after = dispatchLog preempt_before @ [(5000, high_item, [low_item2])] \<and>
   batch_status preempt_before 3 4 = Some yet_to_start \<and>
   batch_status preempt_after 3 4 = Some triggered"
proof -
  have d: "dispatchLog preempt_after \<noteq> dispatchLog preempt_before"
    "batchQueue preempt_before = [high_item, low_item2]"
    "batchQueue preempt_after = [low_item2]" "now preempt_before = 5000"
    by (simp_all add: preempt_after_def preempt_before_def)
  from dispatch_takes_highest_priority [OF preempt_before_run preempt_after_step d(1)]
  obtain it where it: "sort_stable (batchQueue preempt_before) = it # batchQueue preempt_after"
    "dispatchLog preempt_after = dispatchLog preempt_before @
       [(now preempt_before, it, batchQueue preempt_after)]"
    "batch_status preempt_before (q_ingestionId it) (q_batchId it) = Some yet_to_start"
    "batch_status preempt_after (q_ingestionId it) (q_batchId it) = Some triggered"
    by blast
  from it(2) have "it = high_item"
    by (simp add: preempt_after_def preempt_before_def)
  with it d preempt_before_run preempt_after_step show ?thesis
    by (simp add: high_item_def)
qed

section \<open>The rate limit\<close>

text \<open>
  The wait of the loop: when a run of the loop has dispatched a batch, the loop is suspended
  on the timer of \<open>RATE_LIMIT_MS\<close> iff the queue is still non-empty after the item was
  removed; otherwise the loop has ended and \<open>isProcessing\<close> is cleared.
\<close>

lemma processQueue_loop_suspends:
  assumes "queue_ok s" "dispatchLog (processQueue_loop s) \<noteq> dispatchLog s"
    "isProcessing s" "loopWake s = None"
  shows "if batchQueue (processQueue_loop s) \<noteq> []
         then isProcessing (processQueue_loop s) \<and>
              loopWake (processQueue_loop s) = Some (now (processQueue_loop s) + RATE_LIMIT_MS)
         else \<not> isProcessing (processQueue_loop s) \<and> loopWake (processQueue_loop s) = None"
  using assms(1)
proof (cases rule: processQueue_loop_cases)
  case idle
  with assms(2) show ?thesis by simp
next
  case (wait it rest ing)
  with assms(3,4) show ?thesis by (simp add: dispatchLog_dispatched)
next
  case (last it ing)
  with assms(3,4) show ?thesis by (simp add: dispatchLog_dispatched)
qed

text \<open>
  Claim C9 asks that consecutive dispatches are at least \<open>RATE_LIMIT_MS\<close> = 5000 ms
  apart. The code does not keep that. In the run \<open>drain_events\<close> the first ingestion has
  one batch: its dispatch at time 0 empties the queue, so the loop skips the wait and ends,
  with \<open>isProcessing\<close> cleared and no timer pending. The ingestion admitted at time 1 is
  then dispatched at once by a new run of the loop: the two dispatches are 1 ms apart.
\<close>

theorem rate_limit_broken_after_drain:
  "map_option (\<lambda>s. (map fst (dispatchLog s), batchQueue s, isProcessing s, loopWake s))
     (run init_state (take 2 drain_events)) = Some ([0], [], False, None) \<and>
   map_option (\<lambda>s. map fst (dispatchLog s)) (run init_state drain_events) = Some [0, 1] \<and>
   RATE_LIMIT_MS = 5000 \<and>
   \<not> dispatch_gaps_ok [0, 1]"
  by (simp add: drain_events_def eval_simps)

end
